theory Spec2Isabelle
  imports
    Main
    "HOL-Library.Sublist"
    "HOL-Library.AList"
    "HOL-Library.Char_ord"
    "HOL-Library.List_Lexorder"
begin

section \<open>The IRS bulletin scraper: model of \<^verbatim>\<open>scraper.py\<close>\<close>

text \<open>
  The class \<^verbatim>\<open>IRSBulletinScraper\<close> talks to three things outside itself: the web
  server, the output directory and the CSV ledger. Each is an explicit value here.
  Byte strings and text are \<^typ>\<open>string\<close> (lists of 8-bit characters).
\<close>

subsection \<open>The output directory\<close>

text \<open>
  A directory is the list of its entries (name, content) in the order the operating
  system lists them. The other fields say which operations the environment lets fail:
  \<^item> \<open>unreadable p\<close>: \<^verbatim>\<open>open(p, "rb")\<close> raises;
  \<^item> \<open>write_limit p = Some k\<close>: the \<open>k+1\<close>-th \<^verbatim>\<open>f.write\<close> on \<open>p\<close> raises
    (\<open>None\<close>: writes never fail); \<open>no_create p\<close>: \<^verbatim>\<open>open(p, "wb")\<close> raises;
  \<^item> \<open>locked p\<close>: \<^verbatim>\<open>unlink\<close> of \<open>p\<close> raises.
\<close>

record filesystem =
  files :: "(string \<times> string) list"
  unreadable :: "string \<Rightarrow> bool"
  no_create :: "string \<Rightarrow> bool"
  write_limit :: "string \<Rightarrow> nat option"
  locked :: "string \<Rightarrow> bool"

definition file_exists :: "filesystem \<Rightarrow> string \<Rightarrow> bool" where
  "file_exists fs filename = (map_of (files fs) filename \<noteq> None)"

subsection \<open>Validity of a stored file (\<^verbatim>\<open>_is_valid_pdf_flexible\<close>, lines 587-626)\<close>

definition startswith :: "string \<Rightarrow> string \<Rightarrow> bool" where
  "startswith s p = (take (length p) s = p)"

fun bytes_in :: "string \<Rightarrow> string \<Rightarrow> bool" where
  "bytes_in p [] = (p = [])"
| "bytes_in p (c # s) = (startswith (c # s) p \<or> bytes_in p s)"

text \<open>
  Every exception inside the function (a missing file makes \<^verbatim>\<open>stat\<close> raise, an
  unreadable one makes \<^verbatim>\<open>open\<close> raise) is caught and gives \<open>False\<close>.
\<close>

definition is_valid_pdf_flexible :: "filesystem \<Rightarrow> string \<Rightarrow> bool" where
  "is_valid_pdf_flexible fs file_path =
     (case map_of (files fs) file_path of
        None \<Rightarrow> False
      | Some bs \<Rightarrow>
          if length bs = 0 then False
          else if unreadable fs file_path then False
          else (let header = take 1024 bs in
                if startswith header ''%PDF'' then True
                else if bytes_in ''PDF'' (take 100 header) then True
                else if startswith header ''%!PS'' then True
                else if length bs < 1024 then False
                else True))"

subsection \<open>The web server and \<^verbatim>\<open>make_request\<close> (lines 74-104)\<close>

text \<open>
  What the process does to the outside world is recorded as a trace of events. The
  server is a function of the trace so far and the URL: it may answer the same URL
  differently each time. A reply carries a status code and a body; \<open>Raised\<close> is any
  exception of \<^verbatim>\<open>requests.get\<close> (time-out, connection error).
\<close>

datatype event = Get string | Sleep nat

record response =
  status_code :: int
  content :: string

datatype http_result = Replied response | Raised

type_synonym network = "event list \<Rightarrow> string \<Rightarrow> http_result"

definition backoff :: "int \<Rightarrow> nat \<Rightarrow> event list \<Rightarrow> event list" where
  "backoff max_retries attempt tr =
     (if int attempt < max_retries - 1 then tr @ [Sleep (2 ^ attempt)] else tr)"

fun make_request_loop ::
  "network \<Rightarrow> int \<Rightarrow> string \<Rightarrow> nat list \<Rightarrow> event list \<Rightarrow> response option \<times> event list" where
  "make_request_loop net max_retries url [] tr = (None, tr)"
| "make_request_loop net max_retries url (attempt # rest) tr =
     (case net tr url of
        Replied r \<Rightarrow>
          if status_code r = 200 then (Some r, tr @ [Get url])
          else make_request_loop net max_retries url rest
                 (backoff max_retries attempt (tr @ [Get url]))
      | Raised \<Rightarrow>
          make_request_loop net max_retries url rest
            (backoff max_retries attempt (tr @ [Get url])))"

definition make_request ::
  "network \<Rightarrow> int \<Rightarrow> string \<Rightarrow> event list \<Rightarrow> response option \<times> event list" where
  "make_request net max_retries url tr =
     make_request_loop net max_retries url [0..<nat max_retries] tr"

text \<open>Vocabulary for stating what the fetcher does.\<close>

definition failed_attempts :: "string \<Rightarrow> nat \<Rightarrow> event list" where
  "failed_attempts url k = concat (map (\<lambda>i. [Get url, Sleep (2 ^ i)]) [0..<k])"

definition succeeds_at :: "network \<Rightarrow> string \<Rightarrow> event list \<Rightarrow> nat \<Rightarrow> bool" where
  "succeeds_at net url tr i =
     (case net (tr @ failed_attempts url i) url of
        Replied r \<Rightarrow> status_code r = 200
      | Raised \<Rightarrow> False)"

definition is_get :: "event \<Rightarrow> bool" where
  "is_get e = (case e of Get u \<Rightarrow> True | Sleep n \<Rightarrow> False)"

subsection \<open>Sample inputs\<close>

definition flaky_server :: network where
  "flaky_server tr url =
     (if length (filter is_get tr) = 0 then Raised
      else if length (filter is_get tr) = 1 then Replied \<lparr>status_code = 503, content = ''busy''\<rparr>
      else Replied \<lparr>status_code = 200, content = ''ok''\<rparr>)"

definition sample_dir :: filesystem where
  "sample_dir = \<lparr>files = [(''empty.pdf'', ''''), (''good.pdf'', ''%PDF-1.4 body''),
                          (''short.pdf'', ''hello''), (''long.pdf'', replicate 2000 CHR ''x'')],
                 unreadable = (\<lambda>p. False), no_create = (\<lambda>p. False),
                 write_limit = (\<lambda>p. None), locked = (\<lambda>p. False)\<rparr>"

subsection \<open>Listing pages and \<^verbatim>\<open>get_document_links\<close> (lines 136-212)\<close>

text \<open>
  \<^verbatim>\<open>BeautifulSoup\<close> never rejects a document; what the crawl reads off the parsed page is
  \<^item> \<open>links\<close>: for every anchor whose \<^verbatim>\<open>href\<close> matches
    \<^verbatim>\<open>/pub/irs-irbs/irb\d+-\d+\.pdf\<close>, in document order, the URL
    \<^verbatim>\<open>urljoin("https://www.irs.gov", href)\<close>;
  \<^item> \<open>pagination\<close>: the first \<^verbatim>\<open>ul.pagination\<close>, if any, as the text of the first
    anchor of each \<^verbatim>\<open>li.pager__item--next\<close> (\<open>None\<close> for an item without anchor) and
    the texts of all its anchors.
  The parser itself is a parameter \<open>parse\<close> of the crawl.
\<close>

record pagination =
  next_items :: "string option list"
  anchors :: "string list"

record page =
  links :: "string list"
  pagination :: "pagination option"

definition BASE_URL :: string where
  "BASE_URL = ''https://www.irs.gov/internal-revenue-bulletins''"

definition DELAY_BETWEEN_PAGES :: nat where
  "DELAY_BETWEEN_PAGES = 1"

definition digit_char :: "nat \<Rightarrow> char" where
  "digit_char d = char_of (48 + d)"

fun str_nat :: "nat \<Rightarrow> string" where
  "str_nat n = (if n < 10 then [digit_char n] else str_nat (n div 10) @ [digit_char (n mod 10)])"

declare str_nat.simps [simp del]

definition page_url :: "nat \<Rightarrow> string" where
  "page_url page_num = (if page_num = 0 then BASE_URL else BASE_URL @ ''?page='' @ str_nat page_num)"

text \<open>\<^verbatim>\<open>os.path.basename\<close>: what follows the last slash.\<close>

definition basename :: "string \<Rightarrow> string" where
  "basename p = rev (takeWhile (\<lambda>c. c \<noteq> CHR ''/'') (rev p))"

definition has_next_page :: "page \<Rightarrow> bool" where
  "has_next_page soup =
     (case pagination soup of
        None \<Rightarrow> False
      | Some pg \<Rightarrow>
          if list_ex (\<lambda>li. case li of None \<Rightarrow> False | Some txt \<Rightarrow> bytes_in ''Next'' txt)
               (next_items pg)
          then True
          else list_ex (\<lambda>txt. bytes_in ''Next'' txt) (anchors pg))"

text \<open>The inner loop over the anchors of one page (lines 157-167).\<close>

fun scan_links ::
  "string list \<Rightarrow> (string \<times> string) list \<Rightarrow> bool \<Rightarrow> (string \<times> string) list \<times> bool" where
  "scan_links [] bulletin_links links_found = (bulletin_links, links_found)"
| "scan_links (pdf_url # rest) bulletin_links links_found =
     (let bulletin_name = basename pdf_url in
      if \<not> list_ex (\<lambda>(name, _). bulletin_name = name) bulletin_links
      then scan_links rest (bulletin_links @ [(bulletin_name, pdf_url)]) True
      else scan_links rest bulletin_links links_found)"

text \<open>
  \<open>max_pages\<close> is an integer or, by default, \<^verbatim>\<open>float("inf")\<close> (\<open>None\<close> here). With no
  bound the \<^verbatim>\<open>while\<close> loop need not end, so the loop is a partial function: \<open>None\<close>
  is a crawl that never returns.
\<close>

definition below_max_pages :: "nat \<Rightarrow> int option \<Rightarrow> bool" where
  "below_max_pages page_num max_pages =
     (case max_pages of None \<Rightarrow> True | Some m \<Rightarrow> int page_num < m)"

partial_function (option) crawl_pages ::
  "network \<Rightarrow> (string \<Rightarrow> page) \<Rightarrow> int \<Rightarrow> int option \<Rightarrow> (string \<times> string) list \<Rightarrow> nat
     \<Rightarrow> event list \<Rightarrow> ((string \<times> string) list \<times> event list) option" where
  "crawl_pages net parse max_retries max_pages bulletin_links page_num tr =
     (if below_max_pages page_num max_pages then
        (case make_request net max_retries (page_url page_num) tr of
           (None, tr1) \<Rightarrow> Some (bulletin_links, tr1)
         | (Some response, tr1) \<Rightarrow>
             (let soup = parse (content response);
                  scanned = scan_links (links soup) bulletin_links False
              in if \<not> snd scanned then Some (fst scanned, tr1)
                 else if \<not> has_next_page soup then Some (fst scanned, tr1)
                 else crawl_pages net parse max_retries max_pages (fst scanned) (page_num + 1)
                        (tr1 @ [Sleep DELAY_BETWEEN_PAGES])))
      else Some (bulletin_links, tr))"

definition get_document_links ::
  "network \<Rightarrow> (string \<Rightarrow> page) \<Rightarrow> int \<Rightarrow> int option \<Rightarrow> event list
     \<Rightarrow> ((string \<times> string) list \<times> event list) option" where
  "get_document_links net parse max_retries max_pages tr =
     crawl_pages net parse max_retries max_pages [] 0 tr"

subsection \<open>\<^verbatim>\<open>get_remote_bulletins\<close> (lines 413-439)\<close>

text \<open>Python's \<^verbatim>\<open>xs[:k]\<close>: a negative \<open>k\<close> counts from the end.\<close>

definition slice_to :: "int \<Rightarrow> 'a list \<Rightarrow> 'a list" where
  "slice_to k xs = (if 0 \<le> k then take (nat k) xs else take (length xs - nat (- k)) xs)"

text \<open>\<^verbatim>\<open>if limit\<close>: \<^verbatim>\<open>None\<close> and \<open>0\<close> are false.\<close>

definition truthy :: "int option \<Rightarrow> bool" where
  "truthy limit = (case limit of None \<Rightarrow> False | Some l \<Rightarrow> l \<noteq> 0)"

definition get_remote_bulletins ::
  "network \<Rightarrow> (string \<Rightarrow> page) \<Rightarrow> int \<Rightarrow> int option \<Rightarrow> int option \<Rightarrow> event list
     \<Rightarrow> ((string \<times> string) list \<times> event list) option" where
  "get_remote_bulletins net parse max_retries max_pages limit tr =
     (case (if truthy limit \<and> the limit \<le> 50
            then (let limited_pages = max 1 ((the limit div 20) + 1)
                  in get_document_links net parse max_retries (Some limited_pages) tr)
            else get_document_links net parse max_retries max_pages tr) of
        None \<Rightarrow> None
      | Some (all_bulletins, tr') \<Rightarrow>
          if truthy limit then Some (slice_to (the limit) all_bulletins, tr')
          else Some (all_bulletins, tr'))"

text \<open>
  Vocabulary for the crawl: the links of a URL stream whose filename is not in \<open>seen\<close>
  and has not occurred earlier in the stream, each at its first occurrence.
\<close>

fun first_seen :: "string set \<Rightarrow> string list \<Rightarrow> (string \<times> string) list" where
  "first_seen seen [] = []"
| "first_seen seen (u # us) =
     (if basename u \<in> seen then first_seen seen us
      else (basename u, u) # first_seen (insert (basename u) seen) us)"

text \<open>A listing of two pages; the second repeats a bulletin of the first.\<close>

definition echo_server :: network where
  "echo_server tr url = Replied \<lparr>status_code = 200, content = url\<rparr>"

definition with_next :: "pagination option" where
  "with_next = Some \<lparr>next_items = [Some ''Next page''], anchors = [''1'', ''2'', ''Next page'']\<rparr>"

definition two_pages :: "string \<Rightarrow> page" where
  "two_pages body =
     (if body = page_url 0
      then \<lparr>links = [''https://www.irs.gov/pub/irs-irbs/irb24-02.pdf'',
                     ''https://www.irs.gov/pub/irs-irbs/irb24-01.pdf''],
            pagination = with_next\<rparr>
      else if body = page_url 1
      then \<lparr>links = [''https://www.irs.gov/pub/irs-irbs/irb24-01.pdf'',
                     ''https://www.irs.gov/pub/irs-irbs/irb23-52.pdf''],
            pagination = with_next\<rparr>
      else \<lparr>links = [''https://www.irs.gov/pub/irs-irbs/irb24-01.pdf''],
            pagination = with_next\<rparr>)"

subsection \<open>Outcome records: sizes, timestamps (lines 117-134, 214-228)\<close>

text \<open>
  A download result is the dictionary with the four keys \<^verbatim>\<open>file_name\<close>,
  \<^verbatim>\<open>file_size_mb\<close>, \<^verbatim>\<open>download_timestamp\<close> and \<^verbatim>\<open>status\<close>. The size is either the
  integer literal \<open>0\<close> or \<^verbatim>\<open>round(st_size / (1024 * 1024), 2)\<close>. Dividing by \<open>2^20\<close> is exact
  in binary floating point and \<^verbatim>\<open>round\<close> rounds the exact value half to even, so
  the float is the one nearest to \<open>h / 100\<close> for the number \<open>h\<close> of hundredths
  computed by \<open>round2\<close>; \<open>PyFloat h\<close> stands for that float.
\<close>

datatype size_val = PyInt int | PyFloat nat

record outcome =
  file_name :: string
  file_size_mb :: size_val
  download_timestamp :: string
  status :: string

definition round2 :: "nat \<Rightarrow> nat" where
  "round2 st_size =
     (let q = (st_size * 100) div 1048576; r = (st_size * 100) mod 1048576 in
      if 2 * r < 1048576 then q
      else if 2 * r > 1048576 then q + 1
      else if even q then q else q + 1)"

record datetime =
  year :: nat
  month :: nat
  day :: nat
  hour :: nat
  minute :: nat
  second :: nat
  microsecond :: nat

definition zfill :: "nat \<Rightarrow> string \<Rightarrow> string" where
  "zfill w s = replicate (w - length s) CHR ''0'' @ s"

text \<open>\<^verbatim>\<open>datetime.isoformat()\<close>: the fraction is left out when it is zero.\<close>

definition isoformat :: "datetime \<Rightarrow> string" where
  "isoformat dt =
     zfill 4 (str_nat (year dt)) @ ''-'' @ zfill 2 (str_nat (month dt)) @ ''-''
       @ zfill 2 (str_nat (day dt)) @ ''T'' @ zfill 2 (str_nat (hour dt)) @ '':''
       @ zfill 2 (str_nat (minute dt)) @ '':'' @ zfill 2 (str_nat (second dt))
       @ (if microsecond dt = 0 then [] else ''.'' @ zfill 6 (str_nat (microsecond dt)))"

definition get_timestamp :: "datetime \<Rightarrow> string" where
  "get_timestamp now = isoformat now"

definition st_size :: "filesystem \<Rightarrow> string \<Rightarrow> nat" where
  "st_size fs file_path = (case map_of (files fs) file_path of None \<Rightarrow> 0 | Some bs \<Rightarrow> length bs)"

definition process_document :: "datetime \<Rightarrow> filesystem \<Rightarrow> string \<Rightarrow> outcome" where
  "process_document now fs file_path =
     \<lparr>file_name = file_path,
      file_size_mb = PyFloat (round2 (st_size fs file_path)),
      download_timestamp = get_timestamp now,
      status = ''downloaded''\<rparr>"

subsection \<open>\<^verbatim>\<open>download_bulletin\<close> (lines 230-286)\<close>

datatype error = OSError | KeyError | ValueError | TypeError

definition CHUNK_SIZE :: nat where
  "CHUNK_SIZE = 8192"

function chunks :: "nat \<Rightarrow> string \<Rightarrow> string list" where
  "chunks n bs = (if n = 0 \<or> bs = [] then [] else take n bs # chunks n (drop n bs))"
  by pat_completeness auto
termination
  by (relation "measure (\<lambda>(n, bs). length bs)") auto

declare chunks.simps [simp del]

text \<open>
  The body of the \<^verbatim>\<open>with open(file_path, "wb")\<close> block. Opening creates the file empty;
  each chunk is appended; the transfer raises once \<open>write_limit\<close> chunks are written
  (a failing \<^verbatim>\<open>f.write\<close>, or the stream breaking). The flag is \<open>False\<close> when an
  exception left the block.
\<close>

fun write_chunks :: "filesystem \<Rightarrow> string \<Rightarrow> nat \<Rightarrow> string list \<Rightarrow> bool \<times> filesystem" where
  "write_chunks fs file_path written [] = (True, fs)"
| "write_chunks fs file_path written (chunk # rest) =
     (if (case write_limit fs file_path of None \<Rightarrow> False | Some k \<Rightarrow> k \<le> written)
      then (False, fs)
      else write_chunks
             (fs\<lparr>files := AList.update file_path (the (map_of (files fs) file_path) @ chunk)
                              (files fs)\<rparr>)
             file_path (written + 1) rest)"

definition write_stream :: "filesystem \<Rightarrow> string \<Rightarrow> string list \<Rightarrow> bool \<times> filesystem" where
  "write_stream fs file_path cs =
     (if no_create fs file_path then (False, fs)
      else write_chunks (fs\<lparr>files := AList.update file_path [] (files fs)\<rparr>) file_path 0 cs)"

definition failed_outcome :: "datetime \<Rightarrow> string \<Rightarrow> outcome" where
  "failed_outcome now bulletin_name =
     \<lparr>file_name = bulletin_name, file_size_mb = PyInt 0,
      download_timestamp = get_timestamp now, status = ''failed''\<rparr>"

text \<open>
  The result is \<open>Inl e\<close> when the exception \<open>e\<close> leaves the function. The only statement
  outside a \<^verbatim>\<open>try\<close> that can raise here is the \<^verbatim>\<open>unlink\<close> in the handler (line 279).
\<close>

definition download_bulletin ::
  "network \<Rightarrow> int \<Rightarrow> datetime \<Rightarrow> string \<times> string \<Rightarrow> filesystem \<Rightarrow> event list
     \<Rightarrow> (error + outcome) \<times> filesystem \<times> event list" where
  "download_bulletin net max_retries now bulletin_info fs tr =
     (case bulletin_info of (bulletin_name, pdf_url) \<Rightarrow>
        if file_exists fs bulletin_name then
          (Inr \<lparr>file_name = bulletin_name,
                file_size_mb = PyFloat (round2 (st_size fs bulletin_name)),
                download_timestamp = ''existing'',
                status = ''skipped''\<rparr>, fs, tr)
        else
          (case make_request net max_retries pdf_url tr of
             (None, tr1) \<Rightarrow> (Inr (failed_outcome now bulletin_name), fs, tr1)
           | (Some response, tr1) \<Rightarrow>
               (case write_stream fs bulletin_name (chunks CHUNK_SIZE (content response)) of
                  (True, fs1) \<Rightarrow> (Inr (process_document now fs1 bulletin_name), fs1, tr1)
                | (False, fs1) \<Rightarrow>
                    if file_exists fs1 bulletin_name then
                      (if locked fs1 bulletin_name then (Inl OSError, fs1, tr1)
                       else (Inr (failed_outcome now bulletin_name),
                             fs1\<lparr>files := AList.delete bulletin_name (files fs1)\<rparr>, tr1))
                    else (Inr (failed_outcome now bulletin_name), fs1, tr1))))"

text \<open>
  The batch of \<^verbatim>\<open>run\<close> (lines 361-372): the workers' downloads in their order of
  completion. An exception of a download is raised again by \<^verbatim>\<open>future.result()\<close>
  and ends the batch.
\<close>

fun download_all ::
  "network \<Rightarrow> int \<Rightarrow> (string \<Rightarrow> datetime) \<Rightarrow> (string \<times> string) list \<Rightarrow> filesystem
     \<Rightarrow> event list \<Rightarrow> (error + outcome list) \<times> filesystem \<times> event list" where
  "download_all net max_retries clock [] fs tr = (Inr [], fs, tr)"
| "download_all net max_retries clock (bulletin # rest) fs tr =
     (let r = download_bulletin net max_retries (clock (fst bulletin)) bulletin fs tr in
      case fst r of
        Inl e \<Rightarrow> (Inl e, snd r)
      | Inr result \<Rightarrow>
          (let rs = download_all net max_retries clock rest (fst (snd r)) (snd (snd r)) in
           case fst rs of
             Inl e \<Rightarrow> rs
           | Inr results \<Rightarrow> (Inr (result # results), snd rs)))"

subsection \<open>Validation and cleanup (lines 544-584, 660-696)\<close>

definition endswith :: "string \<Rightarrow> string \<Rightarrow> bool" where
  "endswith s x = (drop (length s - length x) s = x)"

definition glob_pdf :: "filesystem \<Rightarrow> string list" where
  "glob_pdf fs = filter (\<lambda>name. endswith name ''.pdf'') (map fst (files fs))"

definition validate_pdf_files :: "filesystem \<Rightarrow> (string \<times> bool) list" where
  "validate_pdf_files fs =
     fold (\<lambda>pdf_file validation_results.
             if st_size fs pdf_file = 0
             then AList.update pdf_file False validation_results
             else AList.update pdf_file (is_valid_pdf_flexible fs pdf_file) validation_results)
          (glob_pdf fs) []"

text \<open>\<^verbatim>\<open>unlink\<close> inside \<^verbatim>\<open>try\<close>: a failure is logged and the loop goes on.\<close>

definition try_unlink :: "string \<Rightarrow> filesystem \<Rightarrow> filesystem" where
  "try_unlink filename fs =
     (if locked fs filename \<or> \<not> file_exists fs filename then fs
      else fs\<lparr>files := AList.delete filename (files fs)\<rparr>)"

definition cleanup_invalid_files :: "bool \<Rightarrow> filesystem \<Rightarrow> string list \<times> filesystem" where
  "cleanup_invalid_files dry_run fs =
     (let validation_results = validate_pdf_files fs;
          invalid_files = map fst (filter (\<lambda>(filename, is_valid). \<not> is_valid) validation_results)
      in if invalid_files = [] then ([], fs)
         else if dry_run then (invalid_files, fs)
         else (invalid_files, fold try_unlink invalid_files fs))"

text \<open>A disk that is full and refuses to delete, and a clock.\<close>

definition stuck_disk :: filesystem where
  "stuck_disk = \<lparr>files = [(''other.pdf'', ''%PDF-1.4'')], unreadable = (\<lambda>p. False),
                 no_create = (\<lambda>p. False), write_limit = (\<lambda>p. Some 0), locked = (\<lambda>p. True)\<rparr>"

definition locked_dir :: filesystem where
  "locked_dir = \<lparr>files = [(''bad.pdf'', ''''), (''good.pdf'', ''%PDF-1.4'')],
                 unreadable = (\<lambda>p. False), no_create = (\<lambda>p. False),
                 write_limit = (\<lambda>p. None), locked = (\<lambda>p. True)\<rparr>"

definition noon :: datetime where
  "noon = \<lparr>year = 2024, month = 3, day = 9, hour = 12, minute = 0, second = 0, microsecond = 0\<rparr>"

subsection \<open>The ledger (\<^verbatim>\<open>get_existing_files\<close>, \<^verbatim>\<open>create_csv_summary\<close>, lines 288-337)\<close>

text \<open>
  The CSV file is modelled after tokenisation: \<open>None\<close> is a missing file, \<open>Some rows\<close>
  the rows (lists of cells) that \<^verbatim>\<open>csv.reader\<close> delivers before the end of the file or
  before it raises; the first row is the header. An exception while reading only ends
  the loop (line 304), so an unreadable file is \<open>Some []\<close> and a file that breaks in
  the middle is the list of rows before the break. Writing a row of four cells and
  reading it back gives the same four cells, so what \<^verbatim>\<open>csv.writer\<close> writes is also
  a list of rows, and two files with equal rows are equal byte for byte.
\<close>

type_synonym ledger = "string list list option"

definition CSV_FIELDNAMES :: "string list" where
  "CSV_FIELDNAMES = [''file_name'', ''file_size_mb'', ''download_timestamp'', ''status'']"

text \<open>
  A dictionary made by \<^verbatim>\<open>csv.DictReader\<close>: the cells under the field names (a missing
  cell is \<^verbatim>\<open>None\<close>), and the surplus cells of a long row, which \<^verbatim>\<open>DictReader\<close> stores
  under the key \<^verbatim>\<open>None\<close>. A value of \<^verbatim>\<open>existing_files\<close> is such a dictionary or a
  download result.
\<close>

datatype entry = Loaded "(string \<times> string option) list" "string list option" | Result outcome

definition dict_row :: "string list \<Rightarrow> string list \<Rightarrow> entry" where
  "dict_row fieldnames row =
     (let d = fold (\<lambda>(k, v). AList.update k (Some v)) (zip fieldnames row) [];
          lf = length fieldnames; lr = length row
      in if lf < lr then Loaded d (Some (drop lf row))
         else if lf > lr then Loaded (fold (\<lambda>k. AList.update k None) (drop lr fieldnames) d) None
         else Loaded d None)"

text \<open>
  The loop of lines 302-303. \<^verbatim>\<open>DictReader\<close> skips empty rows. \<^verbatim>\<open>row["file_name"]\<close>
  raises \<^verbatim>\<open>KeyError\<close> when the header has no such column, which ends the loop; it is
  \<^verbatim>\<open>None\<close> when the row is too short to reach the column.
\<close>

fun read_rows ::
  "string list \<Rightarrow> string list list \<Rightarrow> (string option \<times> entry) list
     \<Rightarrow> (string option \<times> entry) list" where
  "read_rows fieldnames [] existing_files = existing_files"
| "read_rows fieldnames (row # rows) existing_files =
     (if row = [] then read_rows fieldnames rows existing_files
      else (case dict_row fieldnames row of
              Loaded d rest \<Rightarrow>
                (case map_of d ''file_name'' of
                   None \<Rightarrow> existing_files
                 | Some name \<Rightarrow>
                     read_rows fieldnames rows
                       (AList.update name (Loaded d rest) existing_files))
            | Result r \<Rightarrow> existing_files))"

definition get_existing_files :: "ledger \<Rightarrow> (string option \<times> entry) list" where
  "get_existing_files csv_file =
     (case csv_file of
        None \<Rightarrow> []
      | Some [] \<Rightarrow> []
      | Some (fieldnames # rows) \<Rightarrow> read_rows fieldnames rows [])"

text \<open>
  \<^verbatim>\<open>str\<close> of the size: an integer in decimal; a float of \<open>h\<close> hundredths as the shortest
  decimal that reads back as the same float, that is \<open>h / 100\<close> without a trailing zero
  in the second decimal (\<^verbatim>\<open>0.0\<close>, \<^verbatim>\<open>1.5\<close>, \<^verbatim>\<open>1.23\<close>).
\<close>

definition str_int :: "int \<Rightarrow> string" where
  "str_int i = (if i < 0 then ''-'' @ str_nat (nat (- i)) else str_nat (nat i))"

definition str_float :: "nat \<Rightarrow> string" where
  "str_float h =
     str_nat (h div 100) @ ''.''
       @ (if h mod 10 = 0 then [digit_char (h mod 100 div 10)]
          else [digit_char (h mod 100 div 10), digit_char (h mod 10)])"

definition str_size :: "size_val \<Rightarrow> string" where
  "str_size v = (case v of PyInt i \<Rightarrow> str_int i | PyFloat h \<Rightarrow> str_float h)"

text \<open>
  \<^verbatim>\<open>DictWriter.writerow\<close>: a dictionary with a key that is not a field name raises
  \<^verbatim>\<open>ValueError\<close>; a missing key and \<^verbatim>\<open>None\<close> are written as the empty cell.
\<close>

definition row_cells :: "entry \<Rightarrow> error + string list" where
  "row_cells e =
     (case e of
        Result r \<Rightarrow>
          Inr [file_name r, str_size (file_size_mb r), download_timestamp r, status r]
      | Loaded d rest \<Rightarrow>
          if rest \<noteq> None \<or> list_ex (\<lambda>(k, v). k \<notin> set CSV_FIELDNAMES) d then Inl ValueError
          else Inr (map (\<lambda>k. case map_of d k of Some (Some s) \<Rightarrow> s | _ \<Rightarrow> '''')
                      CSV_FIELDNAMES))"

text \<open>
  \<^verbatim>\<open>sorted(existing_files.keys())\<close>: strings are compared by code point; comparing
  \<^verbatim>\<open>None\<close> with a string raises \<^verbatim>\<open>TypeError\<close>.
\<close>

definition sorted_keys :: "string option list \<Rightarrow> error + string option list" where
  "sorted_keys ks =
     (if None \<in> set ks then (if length ks \<le> 1 then Inr ks else Inl TypeError)
      else Inr (map Some (sort (map the ks))))"

fun write_rows ::
  "(string option \<times> entry) list \<Rightarrow> string option list \<Rightarrow> string list list
     \<Rightarrow> string list list" where
  "write_rows existing_files [] written = written"
| "write_rows existing_files (filename # rest) written =
     (case map_of existing_files filename of
        None \<Rightarrow> written
      | Some e \<Rightarrow>
          (case row_cells e of
             Inl err \<Rightarrow> written
           | Inr cells \<Rightarrow> write_rows existing_files rest (written @ [cells])))"

text \<open>
  What the environment does to the write: nothing, or \<^verbatim>\<open>open(csv_file, "w")\<close> raises
  (the old file stays), or an I/O error after some lines. Every exception is caught
  at line 336.
\<close>

datatype write_fault = NoFault | CannotOpen | FailsAfter nat

definition create_csv_summary :: "write_fault \<Rightarrow> outcome list \<Rightarrow> ledger \<Rightarrow> ledger" where
  "create_csv_summary fault download_results csv_file =
     (let existing_files =
            fold (\<lambda>result. AList.update (Some (file_name result)) (Result result))
              download_results (get_existing_files csv_file);
          lines = CSV_FIELDNAMES #
            (case sorted_keys (map fst existing_files) of
               Inl err \<Rightarrow> []
             | Inr filenames \<Rightarrow> write_rows existing_files filenames [])
      in case fault of
           NoFault \<Rightarrow> Some lines
         | CannotOpen \<Rightarrow> csv_file
         | FailsAfter k \<Rightarrow> Some (take k lines))"

subsection \<open>Checking for new bulletins (lines 387-476)\<close>

fun status_rows ::
  "string list \<Rightarrow> string list list \<Rightarrow> string option list \<Rightarrow> string option list" where
  "status_rows fieldnames [] local_bulletins = local_bulletins"
| "status_rows fieldnames (row # rows) local_bulletins =
     (if row = [] then status_rows fieldnames rows local_bulletins
      else (case dict_row fieldnames row of
              Loaded d rest \<Rightarrow>
                if map_of d ''status'' = Some (Some ''downloaded'')
                   \<or> map_of d ''status'' = Some (Some ''skipped'')
                then (case map_of d ''file_name'' of
                        None \<Rightarrow> local_bulletins
                      | Some name \<Rightarrow>
                          status_rows fieldnames rows (List.insert name local_bulletins))
                else status_rows fieldnames rows local_bulletins
            | Result r \<Rightarrow> local_bulletins))"

definition get_local_bulletins :: "filesystem \<Rightarrow> ledger \<Rightarrow> string option list" where
  "get_local_bulletins fs csv_file =
     (let local_bulletins = fold (\<lambda>name. List.insert (Some name)) (glob_pdf fs) []
      in case csv_file of
           None \<Rightarrow> local_bulletins
         | Some [] \<Rightarrow> local_bulletins
         | Some (fieldnames # rows) \<Rightarrow> status_rows fieldnames rows local_bulletins)"

record check_results =
  total_remote_checked :: nat
  total_local :: nat
  new_bulletins_count :: nat
  new_bulletins :: "(string \<times> string) list"
  check_timestamp :: string

definition check_for_new_bulletins ::
  "network \<Rightarrow> (string \<Rightarrow> page) \<Rightarrow> int \<Rightarrow> int option \<Rightarrow> datetime \<Rightarrow> filesystem \<Rightarrow> ledger
     \<Rightarrow> int option \<Rightarrow> event list \<Rightarrow> (check_results \<times> event list) option" where
  "check_for_new_bulletins net parse max_retries max_pages now fs csv_file limit tr =
     (let local_bulletins = get_local_bulletins fs csv_file in
      case get_remote_bulletins net parse max_retries max_pages limit tr of
        None \<Rightarrow> None
      | Some (remote_bulletins, tr') \<Rightarrow>
          (let new = filter (\<lambda>(filename, url). Some filename \<notin> set local_bulletins)
                       remote_bulletins
           in Some (\<lparr>total_remote_checked = length remote_bulletins,
                      total_local = length local_bulletins,
                      new_bulletins_count = length new,
                      new_bulletins = new,
                      check_timestamp = get_timestamp now\<rparr>, tr')))"

text \<open>
  Vocabulary for the ledger. The record of a file name in \<^verbatim>\<open>existing_files\<close> is the
  row that would be written for it; \<open>table m\<close> is the file that holds the header and
  the rows of \<open>m\<close> in ascending order of file name.
\<close>

definition cells_of :: "entry \<Rightarrow> string list" where
  "cells_of e = (case row_cells e of Inl err \<Rightarrow> [] | Inr cells \<Rightarrow> cells)"

definition ledger_rows :: "(string option \<times> entry) list \<Rightarrow> (string \<rightharpoonup> string list)" where
  "ledger_rows existing_files = (\<lambda>n. map_option cells_of (map_of existing_files (Some n)))"

definition outcome_rows :: "outcome list \<Rightarrow> (string \<rightharpoonup> string list)" where
  "outcome_rows rs = map_of (rev (map (\<lambda>r. (file_name r, cells_of (Result r))) rs))"

definition table :: "(string \<rightharpoonup> string list) \<Rightarrow> string list list" where
  "table m = CSV_FIELDNAMES # map (\<lambda>n. the (m n)) (sorted_list_of_set (dom m))"

text \<open>
  A ledger in the format of the program: missing, empty, or the fixed header followed
  by rows of at most four cells.
\<close>

definition wf_ledger :: "ledger \<Rightarrow> bool" where
  "wf_ledger csv_file =
     (case csv_file of
        None \<Rightarrow> True
      | Some [] \<Rightarrow> True
      | Some (fieldnames # rows) \<Rightarrow>
          fieldnames = CSV_FIELDNAMES \<and> list_all (\<lambda>row. length row \<le> 4) rows)"

definition old_ledger :: ledger where
  "old_ledger = Some [CSV_FIELDNAMES,
                      [''irb24-02.pdf'', ''1.23'', ''2024-01-08T09:00:00'', ''downloaded''],
                      [''irb23-52.pdf'', ''0'', ''2024-01-08T09:00:01.250000'', ''failed'']]"

definition new_results :: "outcome list" where
  "new_results = [\<lparr>file_name = ''irb24-03.pdf'', file_size_mb = PyFloat 150,
                    download_timestamp = isoformat noon, status = ''downloaded''\<rparr>,
                   \<lparr>file_name = ''irb23-52.pdf'', file_size_mb = PyFloat 208,
                    download_timestamp = ''existing'', status = ''skipped''\<rparr>]"


text \<open>
  The invariant of \<^verbatim>\<open>existing_files\<close> on ledgers of the program's format: every key
  is a file name and its value can be written as a row of four cells that starts with
  that name.
\<close>

definition good_entries :: "(string option \<times> entry) list \<Rightarrow> bool" where
  "good_entries existing_files =
     list_all (\<lambda>(k, e). case k of
                  None \<Rightarrow> False
                | Some n \<Rightarrow> (case row_cells e of
                              Inl err \<Rightarrow> False
                            | Inr cells \<Rightarrow> length cells = 4 \<and> hd cells = n))
       existing_files"


text \<open>
  Vocabulary for the format of a ledger row: decimal digits, a recogniser of the
  timestamps \<^verbatim>\<open>YYYY-MM-DDTHH:MM:SS\<close> with an optional fraction of six digits, the
  size with exactly two decimals, and the size as \<^verbatim>\<open>str\<close> renders it.
\<close>

definition is_digit :: "char \<Rightarrow> bool" where
  "is_digit c = (c \<in> set ''0123456789'')"


definition eat :: "char \<Rightarrow> string \<Rightarrow> string option" where
  "eat c s = (case s of [] \<Rightarrow> None | x # r \<Rightarrow> if x = c then Some r else None)"


definition decimals :: "string \<Rightarrow> nat option" where
  "decimals s =
     (case dropWhile is_digit s of
        [] \<Rightarrow> None
      | c # f \<Rightarrow> if takeWhile is_digit s \<noteq> [] \<and> c = CHR ''.'' \<and> list_all is_digit f
                 then Some (length f) else None)"

definition two_decimals :: "string \<Rightarrow> bool" where
  "two_decimals s = (decimals s = Some 2)"










text \<open>
  Vocabulary for the order of discovery. Seen from a loop state (accumulator \<open>acc\<close>,
  page number \<open>pn\<close>, trace \<open>tr\<close>), as long as the crawl goes on:
  \<^item> \<open>trace_before \<dots> i\<close> is the trace when page \<open>pn + i\<close> is about to be fetched;
  \<^item> \<open>page_fetched \<dots> i\<close> is that page, parsed, if its fetch succeeds;
  \<^item> \<open>links_upto \<dots> k\<close> are the links of the pages \<open>pn, \<dots>, pn + k - 1\<close>, page after
    page, each page in document order;
  \<^item> \<open>collected \<dots> k\<close> is the accumulator followed by the links of those pages whose
    filename was not seen before, each at its first occurrence;
  \<^item> \<open>goes_on \<dots> i\<close> says that the crawl moves on from page \<open>pn + i\<close>: the page is
    within \<open>max_pages\<close>, is fetched, adds a link and has a next-page control;
  \<^item> \<open>crawl_result \<dots> j\<close> is what has been collected when the crawl stops at page
    \<open>pn + j\<close>: that page included, if it was fetched.
\<close>

fun trace_before :: "network \<Rightarrow> int \<Rightarrow> nat \<Rightarrow> event list \<Rightarrow> nat \<Rightarrow> event list" where
  "trace_before net mr pn tr 0 = tr"
| "trace_before net mr pn tr (Suc i) =
     snd (make_request net mr (page_url (pn + i)) (trace_before net mr pn tr i))
       @ [Sleep DELAY_BETWEEN_PAGES]"

definition page_fetched ::
  "network \<Rightarrow> (string \<Rightarrow> page) \<Rightarrow> int \<Rightarrow> nat \<Rightarrow> event list \<Rightarrow> nat \<Rightarrow> page option" where
  "page_fetched net parse mr pn tr i =
     map_option (\<lambda>r. parse (content r))
       (fst (make_request net mr (page_url (pn + i)) (trace_before net mr pn tr i)))"

definition links_upto ::
  "network \<Rightarrow> (string \<Rightarrow> page) \<Rightarrow> int \<Rightarrow> nat \<Rightarrow> event list \<Rightarrow> nat \<Rightarrow> string list" where
  "links_upto net parse mr pn tr k =
     concat (map (\<lambda>i. case page_fetched net parse mr pn tr i of
                         None \<Rightarrow> []
                       | Some p \<Rightarrow> links p) [0..<k])"

definition collected ::
  "network \<Rightarrow> (string \<Rightarrow> page) \<Rightarrow> int \<Rightarrow> (string \<times> string) list \<Rightarrow> nat \<Rightarrow> event list \<Rightarrow> nat
     \<Rightarrow> (string \<times> string) list" where
  "collected net parse mr acc pn tr k =
     acc @ first_seen (fst ` set acc) (links_upto net parse mr pn tr k)"

definition goes_on ::
  "network \<Rightarrow> (string \<Rightarrow> page) \<Rightarrow> int \<Rightarrow> int option \<Rightarrow> (string \<times> string) list \<Rightarrow> nat
     \<Rightarrow> event list \<Rightarrow> nat \<Rightarrow> bool" where
  "goes_on net parse mr mp acc pn tr i =
     (below_max_pages (pn + i) mp
      \<and> (case page_fetched net parse mr pn tr i of
            None \<Rightarrow> False
          | Some p \<Rightarrow>
              collected net parse mr acc pn tr (Suc i) \<noteq> collected net parse mr acc pn tr i
              \<and> has_next_page p))"

definition crawl_result ::
  "network \<Rightarrow> (string \<Rightarrow> page) \<Rightarrow> int \<Rightarrow> int option \<Rightarrow> (string \<times> string) list \<Rightarrow> nat
     \<Rightarrow> event list \<Rightarrow> nat \<Rightarrow> (string \<times> string) list" where
  "crawl_result net parse mr mp acc pn tr j =
     (if below_max_pages (pn + j) mp \<and> page_fetched net parse mr pn tr j \<noteq> None
      then collected net parse mr acc pn tr (Suc j)
      else collected net parse mr acc pn tr j)"

text \<open>The page at which a crawl stops, and what it returns.\<close>

definition stops_at ::
  "network \<Rightarrow> (string \<Rightarrow> page) \<Rightarrow> int \<Rightarrow> int option \<Rightarrow> (string \<times> string) list \<Rightarrow> nat
     \<Rightarrow> event list \<Rightarrow> nat \<Rightarrow> bool" where
  "stops_at net parse mr mp acc pn tr j =
     ((\<forall>i<j. goes_on net parse mr mp acc pn tr i) \<and> \<not> goes_on net parse mr mp acc pn tr j)"

section \<open>Theorems\<close>

subsection \<open>Validity classification\<close>

lemma startswith_prefix: "startswith s p = prefix p s"
proof
  assume "startswith s p"
  then have "s = p @ drop (length p) s"
    by (metis startswith_def append_take_drop_id)
  then show "prefix p s"
    by (metis prefixI)
next
  assume "prefix p s"
  then show "startswith s p"
    by (auto simp: startswith_def prefix_def)
qed

lemma bytes_in_sublist: "bytes_in p s = sublist p s"
  by (induction s) (simp_all add: startswith_prefix sublist_Cons_right)

text \<open>
  C5. For a stored, readable file with content \<open>bs\<close>: an empty file is invalid; a file
  whose first kilobyte starts with \<open>%PDF\<close>, or has \<open>PDF\<close> somewhere in its first 100
  bytes, or starts with \<open>%!PS\<close>, is valid; any other file is valid exactly when it
  has at least 1024 bytes.
\<close>

theorem is_valid_pdf_flexible_classifies:
  assumes "map_of (files fs) p = Some bs" and "\<not> unreadable fs p"
  shows "(bs = [] \<longrightarrow> \<not> is_valid_pdf_flexible fs p)
       \<and> (prefix ''%PDF'' (take 1024 bs) \<or> sublist ''PDF'' (take 100 bs)
            \<or> prefix ''%!PS'' (take 1024 bs) \<longrightarrow> is_valid_pdf_flexible fs p)
       \<and> (\<not> (prefix ''%PDF'' (take 1024 bs) \<or> sublist ''PDF'' (take 100 bs)
              \<or> prefix ''%!PS'' (take 1024 bs))
            \<longrightarrow> is_valid_pdf_flexible fs p = (1024 \<le> length bs))"
proof -
  have e: "bs = [] \<Longrightarrow> \<not> sublist ''PDF'' (take 100 bs)"
    by simp
  have ne: "prefix ''%PDF'' (take 1024 bs) \<or> sublist ''PDF'' (take 100 bs)
              \<or> prefix ''%!PS'' (take 1024 bs) \<Longrightarrow> bs \<noteq> []"
    by auto
  show ?thesis
    using assms ne
    by (auto simp: is_valid_pdf_flexible_def Let_def bytes_in_sublist startswith_prefix
          min_def)
qed

theorem is_valid_pdf_flexible_classifies_witness:
  "\<not> is_valid_pdf_flexible sample_dir ''empty.pdf''
   \<and> is_valid_pdf_flexible sample_dir ''good.pdf''
   \<and> \<not> is_valid_pdf_flexible sample_dir ''short.pdf''
   \<and> is_valid_pdf_flexible sample_dir ''long.pdf''"
proof -
  have r: "\<not> unreadable sample_dir p" for p by (simp add: sample_dir_def)
  have 1: "map_of (files sample_dir) ''empty.pdf'' = Some ''''"
    and 2: "map_of (files sample_dir) ''good.pdf'' = Some ''%PDF-1.4 body''"
    and 3: "map_of (files sample_dir) ''short.pdf'' = Some ''hello''"
    and 4: "map_of (files sample_dir) ''long.pdf'' = Some (replicate 2000 CHR ''x'')"
    by (simp_all add: sample_dir_def)
  have nx: "\<not> sublist ''PDF'' (take 100 (replicate 2000 CHR ''x''))"
           "\<not> prefix ''%PDF'' (take 1024 (replicate 2000 CHR ''x''))"
           "\<not> prefix ''%!PS'' (take 1024 (replicate 2000 CHR ''x''))"
    using set_mono_sublist [of "''PDF''" "take 100 (replicate 2000 CHR ''x'')"]
          set_mono_prefix [of "''%PDF''" "take 1024 (replicate 2000 CHR ''x'')"]
          set_mono_prefix [of "''%!PS''" "take 1024 (replicate 2000 CHR ''x'')"]
    by auto
  have nh: "\<not> sublist ''PDF'' (take 100 ''hello'')"
           "\<not> prefix ''%PDF'' (take 1024 ''hello'')"
           "\<not> prefix ''%!PS'' (take 1024 ''hello'')"
    using set_mono_sublist [of "''PDF''" "take 100 ''hello''"]
    by auto
  show ?thesis
    using is_valid_pdf_flexible_classifies [OF 1 r]
          is_valid_pdf_flexible_classifies [OF 2 r]
          is_valid_pdf_flexible_classifies [OF 3 r]
          is_valid_pdf_flexible_classifies [OF 4 r] nx nh
    by simp
qed

subsection \<open>Fetching with retries\<close>

lemma failed_attempts_Suc:
  "failed_attempts url (Suc k) = failed_attempts url k @ [Get url, Sleep (2 ^ k)]"
  by (simp add: failed_attempts_def)

lemma backoff_step:
  assumes "a < nat mr"
  shows "backoff mr a (tr @ failed_attempts url a @ [Get url]) =
           (if Suc a < nat mr then tr @ failed_attempts url (Suc a)
            else tr @ failed_attempts url a @ [Get url])"
  using assms by (auto simp: backoff_def failed_attempts_Suc)

lemma make_request_loop_all_fail:
  assumes "a < n" and "n = nat mr"
    and "\<forall>i. a \<le> i \<and> i < n \<longrightarrow> \<not> succeeds_at net url tr i"
  shows "make_request_loop net mr url [a..<n] (tr @ failed_attempts url a) =
           (None, tr @ failed_attempts url (n - 1) @ [Get url])"
  using assms
proof (induction a rule: strict_inc_induct)
  case (base a)
  then have f: "\<not> succeeds_at net url tr a" by simp
  have u: "[a..<n] = [a]" using base by (simp add: upt_conv_Cons)
  have b: "backoff mr a (tr @ failed_attempts url a @ [Get url]) = tr @ failed_attempts url a @ [Get url]"
    using base backoff_step [of a mr tr url] by simp
  show ?case
    using f b base unfolding u
    by (auto simp: succeeds_at_def split: http_result.splits)
next
  case (step a)
  then have f: "\<not> succeeds_at net url tr a" by simp
  have u: "[a..<n] = a # [Suc a..<n]" using step by (simp add: upt_conv_Cons)
  have b: "backoff mr a (tr @ failed_attempts url a @ [Get url]) = tr @ failed_attempts url (Suc a)"
    using step backoff_step [of a mr tr url] by simp
  have ih: "make_request_loop net mr url [Suc a..<n] (tr @ failed_attempts url (Suc a)) =
           (None, tr @ failed_attempts url (n - 1) @ [Get url])"
    using step by simp
  show ?case
    using f b ih unfolding u
    by (auto simp: succeeds_at_def split: http_result.splits)
qed


lemma make_request_loop_success:
  assumes "a \<le> k" and "k < n" and "n = nat mr"
    and "\<forall>i. a \<le> i \<and> i < k \<longrightarrow> \<not> succeeds_at net url tr i"
    and "net (tr @ failed_attempts url k) url = Replied r" and "status_code r = 200"
  shows "make_request_loop net mr url [a..<n] (tr @ failed_attempts url a) =
           (Some r, tr @ failed_attempts url k @ [Get url])"
  using assms
proof (induction a rule: inc_induct)
  case base
  have u: "[k..<n] = k # [Suc k..<n]" using base by (simp add: upt_conv_Cons)
  show ?case using base unfolding u by simp
next
  case (step a)
  then have f: "\<not> succeeds_at net url tr a" by simp
  have u: "[a..<n] = a # [Suc a..<n]" using step by (simp add: upt_conv_Cons)
  have b: "backoff mr a (tr @ failed_attempts url a @ [Get url]) = tr @ failed_attempts url (Suc a)"
    using step backoff_step [of a mr tr url] by simp
  have ih: "make_request_loop net mr url [Suc a..<n] (tr @ failed_attempts url (Suc a)) =
           (Some r, tr @ failed_attempts url k @ [Get url])"
    using step by simp
  show ?case
    using f b ih unfolding u
    by (auto simp: succeeds_at_def split: http_result.splits)
qed

lemma gets_failed_attempts: "length (filter is_get (failed_attempts url k)) = k"
  by (induction k) (simp_all add: failed_attempts_Suc is_get_def, simp add: failed_attempts_def)

text \<open>
  C2. With \<open>max_retries \<ge> 1\<close>, \<open>make_request\<close> issues at most \<open>max_retries\<close> GETs. If
  attempt \<open>k\<close> is the first to get status 200, its response is returned at once, after
  the failed attempts \<open>0..k-1\<close>, each followed by a sleep of \<open>2^i\<close> seconds. If every
  attempt fails (other status or exception), the result is \<open>None\<close>, with a sleep after
  every attempt but the last.
\<close>

theorem make_request_retries:
  assumes "1 \<le> max_retries"
  shows "length (filter is_get (drop (length tr) (snd (make_request net max_retries url tr))))
           \<le> nat max_retries
       \<and> (\<forall>k r. k < nat max_retries
              \<and> (\<forall>i<k. \<not> succeeds_at net url tr i)
              \<and> net (tr @ failed_attempts url k) url = Replied r \<and> status_code r = 200
            \<longrightarrow> make_request net max_retries url tr
                  = (Some r, tr @ failed_attempts url k @ [Get url]))
       \<and> ((\<forall>i < nat max_retries. \<not> succeeds_at net url tr i)
            \<longrightarrow> make_request net max_retries url tr
                  = (None, tr @ failed_attempts url (nat max_retries - 1) @ [Get url]))"
proof -
  let ?n = "nat max_retries"
  have pos: "0 < ?n" using assms by simp
  have e: "failed_attempts url 0 = []" by (simp add: failed_attempts_def)
  have S: "make_request net max_retries url tr = (Some r, tr @ failed_attempts url k @ [Get url])"
    if "k < ?n" "\<forall>i<k. \<not> succeeds_at net url tr i"
       "net (tr @ failed_attempts url k) url = Replied r" "status_code r = 200" for k r
    using make_request_loop_success [of 0 k ?n max_retries net url tr r] that
    by (simp add: make_request_def e)
  have F: "make_request net max_retries url tr
             = (None, tr @ failed_attempts url (?n - 1) @ [Get url])"
    if "\<forall>i < ?n. \<not> succeeds_at net url tr i"
    using make_request_loop_all_fail [of 0 ?n max_retries net url tr] that pos
    by (simp add: make_request_def e)
  have C: "length (filter is_get (drop (length tr) (snd (make_request net max_retries url tr)))) \<le> ?n"
  proof (cases "\<exists>k < ?n. succeeds_at net url tr k")
    case True
    define k where "k = (LEAST k. succeeds_at net url tr k)"
    from True obtain j where j: "j < ?n" "succeeds_at net url tr j" by blast
    have sk: "succeeds_at net url tr k" unfolding k_def using j(2) by (rule LeastI)
    have kj: "k \<le> j" unfolding k_def using j(2) by (rule Least_le)
    have mn: "\<forall>i<k. \<not> succeeds_at net url tr i"
      unfolding k_def using not_less_Least by blast
    from sk obtain r where r: "net (tr @ failed_attempts url k) url = Replied r" "status_code r = 200"
      by (auto simp: succeeds_at_def split: http_result.splits)
    have "make_request net max_retries url tr = (Some r, tr @ failed_attempts url k @ [Get url])"
      using S [of k r] kj j mn r by simp
    then show ?thesis using kj j
      by (simp add: gets_failed_attempts is_get_def)
  next
    case False
    then have "make_request net max_retries url tr
             = (None, tr @ failed_attempts url (?n - 1) @ [Get url])"
      using F by blast
    then show ?thesis using pos
      by (simp add: gets_failed_attempts is_get_def)
  qed
  show ?thesis using S F C by blast
qed

theorem make_request_retries_witness:
  "(1::int) \<le> 3
   \<and> make_request flaky_server 3 ''u'' []
       = (Some \<lparr>status_code = 200, content = ''ok''\<rparr>,
          [Get ''u'', Sleep 1, Get ''u'', Sleep 2, Get ''u''])"
proof -
  have h: "(1::int) \<le> 3" by simp
  have fa: "failed_attempts ''u'' 2 = [Get ''u'', Sleep 1, Get ''u'', Sleep 2]"
           "failed_attempts ''u'' (Suc 0) = [Get ''u'', Sleep 1]"
           "failed_attempts ''u'' 0 = []"
    by (simp_all add: failed_attempts_def upt_rec)
  have f: "\<forall>i<2. \<not> succeeds_at flaky_server ''u'' [] i"
    by (simp add: less_Suc_eq numeral_2_eq_2 succeeds_at_def flaky_server_def fa is_get_def)
  have s: "flaky_server ([] @ failed_attempts ''u'' 2) ''u''
             = Replied \<lparr>status_code = 200, content = ''ok''\<rparr>"
    by (simp add: flaky_server_def fa is_get_def)
  from make_request_retries [OF h, of "[]" flaky_server "''u''"] f s
  have "make_request flaky_server 3 ''u'' []
          = (Some \<lparr>status_code = 200, content = ''ok''\<rparr>, [] @ failed_attempts ''u'' 2 @ [Get ''u''])"
    by simp
  then show ?thesis by (simp add: fa)
qed

subsection \<open>The crawl\<close>

lemma list_ex_name: "list_ex (\<lambda>(name, _). b = name) acc = (b \<in> fst ` set acc)"
  by (induction acc) auto

lemma scan_links_first_seen:
  "scan_links us acc f
     = (acc @ first_seen (fst ` set acc) us, f \<or> first_seen (fst ` set acc) us \<noteq> [])"
proof (induction us arbitrary: acc f)
  case Nil
  show ?case by simp
next
  case (Cons u us)
  show ?case
  proof (cases "basename u \<in> fst ` set acc")
    case True
    then show ?thesis
      using Cons [of acc f] by (simp add: list_ex_name)
  next
    case False
    then show ?thesis
      using Cons [of "acc @ [(basename u, u)]" True] by (simp add: list_ex_name Let_def)
  qed
qed

lemma first_seen_names: "fst ` set (first_seen seen us) = basename ` set us - seen"
  by (induction us arbitrary: seen) auto

lemma first_seen_distinct: "distinct (map fst (first_seen seen us))"
  by (induction us arbitrary: seen) (auto simp: first_seen_names)

lemma scan_links_distinct:
  assumes "distinct (map fst acc)"
  shows "distinct (map fst (fst (scan_links us acc f)))"
  using assms
  by (auto simp: scan_links_first_seen first_seen_distinct first_seen_names)

lemma scan_links_prefix: "prefix acc (fst (scan_links us acc f))"
  by (simp add: scan_links_first_seen)

lemma crawl_pages_invariant_aux:
  "crawl_pages net parse mr mp acc pn tr = Some y \<Longrightarrow>
     distinct (map fst acc) \<longrightarrow> distinct (map fst (fst y)) \<and> prefix acc (fst y)"
proof (induction rule: crawl_pages.raw_induct [rotated 1, consumes 1])
  case (1 crawl net parse mr mp acc pn tr y)
  show ?case
  proof (cases "below_max_pages pn mp")
    case False
    with 1(2) show ?thesis by auto
  next
    case True
    obtain ro tr1 where mk: "make_request net mr (page_url pn) tr = (ro, tr1)"
      by (cases "make_request net mr (page_url pn) tr")
    show ?thesis
    proof (cases ro)
      case None
      with 1(2) True mk show ?thesis by auto
    next
      case (Some r)
      let ?sc = "scan_links (links (parse (content r))) acc False"
      show ?thesis
      proof (cases "\<not> snd ?sc \<or> \<not> has_next_page (parse (content r))")
        case True
        then have "y = (fst ?sc, tr1)"
          using 1(2) \<open>below_max_pages pn mp\<close> mk Some
          by (auto simp: Let_def split: if_splits)
        then show ?thesis
          by (simp add: scan_links_distinct scan_links_prefix)
      next
        case False
        then have "crawl net parse mr mp (fst ?sc) (pn + 1) (tr1 @ [Sleep DELAY_BETWEEN_PAGES]) = Some y"
          using 1(2) \<open>below_max_pages pn mp\<close> mk Some by (auto simp: Let_def)
        from 1(1) [OF this]
        have "distinct (map fst (fst ?sc)) \<longrightarrow> distinct (map fst (fst y)) \<and> prefix (fst ?sc) (fst y)" .
        then show ?thesis
          using scan_links_distinct [of acc "links (parse (content r))" False]
                scan_links_prefix [of acc "links (parse (content r))" False]
          by (auto intro: prefix_order.trans)
      qed
    qed
  qed
qed

lemma crawl_pages_invariant:
  assumes "crawl_pages net parse mr mp acc pn tr = Some (res, tr')"
    and "distinct (map fst acc)"
  shows "distinct (map fst res) \<and> prefix acc res"
  using crawl_pages_invariant_aux [OF assms(1)] assms(2) by simp

lemma crawl_pages_bounded_returns:
  "\<exists>y. crawl_pages net parse mr (Some m) acc pn tr = Some y"
proof (induction "nat m - pn" arbitrary: acc pn tr)
  case 0
  then have "\<not> below_max_pages pn (Some m)"
    by (auto simp: below_max_pages_def)
  then show ?case
    by (subst crawl_pages.simps) simp
next
  case (Suc d)
  then have d: "d = nat m - (pn + 1)" by simp
  show ?case
    using Suc(1) [OF d]
    by (subst crawl_pages.simps)
       (auto simp: Let_def split: prod.splits option.splits)
qed

lemma first_seen_append:
  "first_seen S (xs @ ys) = first_seen S xs @ first_seen (S \<union> basename ` set xs) ys"
proof (induction xs arbitrary: S)
  case Nil
  show ?case by simp
next
  case (Cons u xs)
  show ?case
  proof (cases "basename u \<in> S")
    case True
    then have "S \<union> basename ` set (u # xs) = S \<union> basename ` set xs"
      by auto
    with True Cons [of S] show ?thesis
      by simp
  next
    case False
    have "S \<union> basename ` set (u # xs) = insert (basename u) S \<union> basename ` set xs"
      by auto
    with False Cons [of "insert (basename u) S"] show ?thesis
      by simp
  qed
qed

lemma trace_before_shift:
  "trace_before net mr pn tr (Suc i)
     = trace_before net mr (Suc pn)
         (snd (make_request net mr (page_url pn) tr) @ [Sleep DELAY_BETWEEN_PAGES]) i"
  by (induction i) simp_all

lemma page_fetched_shift:
  "page_fetched net parse mr pn tr (Suc i)
     = page_fetched net parse mr (Suc pn)
         (snd (make_request net mr (page_url pn) tr) @ [Sleep DELAY_BETWEEN_PAGES]) i"
  unfolding page_fetched_def trace_before_shift by simp

lemma links_upto_shift:
  "links_upto net parse mr pn tr (Suc k)
     = (case page_fetched net parse mr pn tr 0 of None \<Rightarrow> [] | Some p \<Rightarrow> links p)
         @ links_upto net parse mr (Suc pn)
             (snd (make_request net mr (page_url pn) tr) @ [Sleep DELAY_BETWEEN_PAGES]) k"
proof -
  have "[0..<Suc k] = 0 # map Suc [0..<k]"
    by (simp add: upt_conv_Cons map_Suc_upt del: upt_Suc)
  then show ?thesis
    unfolding links_upto_def
    by (simp add: page_fetched_shift comp_def del: upt_Suc)
qed

lemma collected_0 [simp]: "collected net parse mr acc pn tr 0 = acc"
  by (simp add: collected_def links_upto_def)

lemma collected_shift:
  "collected net parse mr acc pn tr (Suc k)
     = collected net parse mr (collected net parse mr acc pn tr (Suc 0)) (Suc pn)
         (snd (make_request net mr (page_url pn) tr) @ [Sleep DELAY_BETWEEN_PAGES]) k"
proof -
  define l where "l = (case page_fetched net parse mr pn tr 0 of None \<Rightarrow> [] | Some p \<Rightarrow> links p)"
  define X where "X = links_upto net parse mr (Suc pn)
         (snd (make_request net mr (page_url pn) tr) @ [Sleep DELAY_BETWEEN_PAGES]) k"
  define acc1 where "acc1 = acc @ first_seen (fst ` set acc) l"
  have l1: "links_upto net parse mr pn tr (Suc 0) = l"
    by (simp add: links_upto_def l_def)
  have lk: "links_upto net parse mr pn tr (Suc k) = l @ X"
    unfolding links_upto_shift l_def X_def ..
  have c1: "collected net parse mr acc pn tr (Suc 0) = acc1"
    unfolding collected_def l1 acc1_def ..
  have n: "fst ` set acc1 = fst ` set acc \<union> basename ` set l"
    unfolding acc1_def by (auto simp: first_seen_names image_Un)
  have "collected net parse mr acc pn tr (Suc k)
          = acc @ first_seen (fst ` set acc) l
              @ first_seen (fst ` set acc \<union> basename ` set l) X"
    unfolding collected_def lk first_seen_append ..
  also have "\<dots> = acc1 @ first_seen (fst ` set acc1) X"
    unfolding n by (simp add: acc1_def)
  also have "\<dots> = collected net parse mr acc1 (Suc pn)
         (snd (make_request net mr (page_url pn) tr) @ [Sleep DELAY_BETWEEN_PAGES]) k"
    unfolding collected_def X_def ..
  finally show ?thesis
    unfolding c1 .
qed

lemma goes_on_shift:
  "goes_on net parse mr mp acc pn tr (Suc i)
     = goes_on net parse mr mp (collected net parse mr acc pn tr (Suc 0)) (Suc pn)
         (snd (make_request net mr (page_url pn) tr) @ [Sleep DELAY_BETWEEN_PAGES]) i"
  unfolding goes_on_def page_fetched_shift collected_shift [of _ _ _ _ _ _ "Suc i"]
    collected_shift [of _ _ _ _ _ _ i]
  by simp

lemma crawl_result_shift:
  "crawl_result net parse mr mp acc pn tr (Suc j)
     = crawl_result net parse mr mp (collected net parse mr acc pn tr (Suc 0)) (Suc pn)
         (snd (make_request net mr (page_url pn) tr) @ [Sleep DELAY_BETWEEN_PAGES]) j"
  unfolding crawl_result_def page_fetched_shift collected_shift [of _ _ _ _ _ _ "Suc j"]
    collected_shift [of _ _ _ _ _ _ j]
  by simp

lemma scan_is_collected:
  assumes "make_request net mr (page_url pn) tr = (Some r, tr1)"
  shows "fst (scan_links (links (parse (content r))) acc f)
           = collected net parse mr acc pn tr (Suc 0)"
    and "snd (scan_links (links (parse (content r))) acc False)
           = (collected net parse mr acc pn tr (Suc 0) \<noteq> collected net parse mr acc pn tr 0)"
    and "page_fetched net parse mr pn tr 0 = Some (parse (content r))"
  using assms
  by (simp_all add: scan_links_first_seen collected_def links_upto_def page_fetched_def)

lemma stops_at_0:
  "stops_at net parse mr mp acc pn tr 0 = (\<not> goes_on net parse mr mp acc pn tr 0)"
  by (simp add: stops_at_def)

lemma stops_at_Suc:
  "stops_at net parse mr mp acc pn tr (Suc j)
     = (goes_on net parse mr mp acc pn tr 0
        \<and> stops_at net parse mr mp (collected net parse mr acc pn tr (Suc 0)) (Suc pn)
            (snd (make_request net mr (page_url pn) tr) @ [Sleep DELAY_BETWEEN_PAGES]) j)"
proof -
  have "(\<forall>i<Suc j. goes_on net parse mr mp acc pn tr i)
          = (goes_on net parse mr mp acc pn tr 0
             \<and> (\<forall>i<j. goes_on net parse mr mp acc pn tr (Suc i)))"
    by (auto simp: less_Suc_eq_0_disj)
  then show ?thesis
    unfolding stops_at_def goes_on_shift [symmetric] by blast
qed

text \<open>A crawl that returns has stopped at some page, and returns what was collected.\<close>

lemma crawl_pages_result:
  "crawl_pages net parse mr mp acc pn tr = Some y \<Longrightarrow>
     \<exists>j. stops_at net parse mr mp acc pn tr j \<and> fst y = crawl_result net parse mr mp acc pn tr j"
proof (induction rule: crawl_pages.raw_induct [rotated 1, consumes 1])
  case (1 crawl net parse mr mp acc pn tr y)
  show ?case
  proof (cases "below_max_pages pn mp")
    case False
    then have "stops_at net parse mr mp acc pn tr 0"
      by (simp add: stops_at_0 goes_on_def)
    moreover have "fst y = crawl_result net parse mr mp acc pn tr 0"
      using False 1(2) by (auto simp: crawl_result_def)
    ultimately show ?thesis by blast
  next
    case True
    obtain ro tr1 where mk: "make_request net mr (page_url pn) tr = (ro, tr1)"
      by (cases "make_request net mr (page_url pn) tr")
    show ?thesis
    proof (cases ro)
      case None
      then have pf: "page_fetched net parse mr pn tr 0 = None"
        using mk by (simp add: page_fetched_def)
      then have "stops_at net parse mr mp acc pn tr 0"
        by (simp add: stops_at_0 goes_on_def)
      moreover have "fst y = crawl_result net parse mr mp acc pn tr 0"
        using True None mk 1(2) pf by (auto simp: crawl_result_def)
      ultimately show ?thesis by blast
    next
      case (Some r)
      note sc = scan_is_collected [OF mk [unfolded Some]]
      let ?c1 = "collected net parse mr acc pn tr (Suc 0)"
      show ?thesis
      proof (cases "?c1 \<noteq> acc \<and> has_next_page (parse (content r))")
        case False
        then have "stops_at net parse mr mp acc pn tr 0"
          by (auto simp: stops_at_0 goes_on_def sc(3))
        moreover have "y = (?c1, tr1)"
          using 1(2) True mk Some False
          by (auto simp: Let_def sc(1) sc(2) split: if_splits)
        then have "fst y = crawl_result net parse mr mp acc pn tr 0"
          using True by (simp add: crawl_result_def sc(3))
        ultimately show ?thesis by blast
      next
        case go: True
        have g0: "goes_on net parse mr mp acc pn tr 0"
          using True go by (simp add: goes_on_def sc(3))
        have t1: "snd (make_request net mr (page_url pn) tr) = tr1"
          using mk by simp
        have "crawl net parse mr mp ?c1 (Suc pn) (tr1 @ [Sleep DELAY_BETWEEN_PAGES]) = Some y"
          using 1(2) True mk Some go
          by (auto simp: Let_def sc(1) sc(2) split: if_splits)
        from 1(1) [OF this] obtain j
          where j: "stops_at net parse mr mp ?c1 (Suc pn) (tr1 @ [Sleep DELAY_BETWEEN_PAGES]) j"
            "fst y = crawl_result net parse mr mp ?c1 (Suc pn)
                       (tr1 @ [Sleep DELAY_BETWEEN_PAGES]) j"
          by blast
        have "stops_at net parse mr mp acc pn tr (Suc j)"
          unfolding stops_at_Suc t1 using g0 j(1) by simp
        moreover have "fst y = crawl_result net parse mr mp acc pn tr (Suc j)"
          unfolding crawl_result_shift t1 using j(2) .
        ultimately show ?thesis by blast
      qed
    qed
  qed
qed

text \<open>A crawl that stops at some page returns.\<close>

lemma crawl_pages_returns:
  "stops_at net parse mr mp acc pn tr j \<Longrightarrow>
     \<exists>tr'. crawl_pages net parse mr mp acc pn tr
             = Some (crawl_result net parse mr mp acc pn tr j, tr')"
proof (induction j arbitrary: acc pn tr)
  case 0
  then have ng: "\<not> goes_on net parse mr mp acc pn tr 0"
    by (simp add: stops_at_0)
  show ?case
  proof (cases "below_max_pages pn mp")
    case False
    then show ?thesis
      by (subst crawl_pages.simps) (simp add: crawl_result_def)
  next
    case True
    obtain ro tr1 where mk: "make_request net mr (page_url pn) tr = (ro, tr1)"
      by (cases "make_request net mr (page_url pn) tr")
    show ?thesis
    proof (cases ro)
      case None
      then have "page_fetched net parse mr pn tr 0 = None"
        using mk by (simp add: page_fetched_def)
      then show ?thesis
        using True mk None by (subst crawl_pages.simps) (simp add: crawl_result_def)
    next
      case (Some r)
      note sc = scan_is_collected [OF mk [unfolded Some]]
      from ng True have "collected net parse mr acc pn tr (Suc 0) = acc
                          \<or> \<not> has_next_page (parse (content r))"
        by (simp add: goes_on_def sc(3))
      then show ?thesis
        using True mk Some
        by (subst crawl_pages.simps) (auto simp: crawl_result_def Let_def sc)
    qed
  qed
next
  case (Suc j)
  let ?c1 = "collected net parse mr acc pn tr (Suc 0)"
  let ?t1 = "snd (make_request net mr (page_url pn) tr) @ [Sleep DELAY_BETWEEN_PAGES]"
  from Suc.prems have g0: "goes_on net parse mr mp acc pn tr 0"
    and st: "stops_at net parse mr mp ?c1 (Suc pn) ?t1 j"
    by (simp_all add: stops_at_Suc)
  from g0 have bm: "below_max_pages pn mp"
    by (simp add: goes_on_def)
  from g0 obtain r tr1 where mk: "make_request net mr (page_url pn) tr = (Some r, tr1)"
    by (cases "make_request net mr (page_url pn) tr")
       (auto simp: goes_on_def page_fetched_def split: option.splits)
  note sc = scan_is_collected [OF mk]
  from g0 have go: "?c1 \<noteq> acc" "has_next_page (parse (content r))"
    by (simp_all add: goes_on_def sc(3))
  from Suc.IH [OF st] obtain tr' where
    "crawl_pages net parse mr mp ?c1 (Suc pn) ?t1
       = Some (crawl_result net parse mr mp ?c1 (Suc pn) ?t1 j, tr')"
    by blast
  then have "crawl_pages net parse mr mp acc pn tr
       = Some (crawl_result net parse mr mp acc pn tr (Suc j), tr')"
    unfolding crawl_result_shift using bm mk go
    by (subst crawl_pages.simps) (simp add: Let_def sc)
  then show ?case by blast
qed

text \<open>
  C3. The list returned by \<open>get_document_links\<close> is the list of the links of the pages
  fetched, page after page and each page in document order, without every link whose
  filename occurred earlier: the crawl returns exactly when it stops at some page
  \<open>j\<close>, and then returns what is collected up to that page. So each filename occurs at
  most once and the links are in first-seen order. The accumulator of the page loop
  never holds a filename twice: scanning a page appends exactly the links whose
  filename is neither accumulated nor seen earlier on the page, so every iteration keeps
  the filenames distinct and keeps what was collected before as a prefix. A crawl
  bounded by \<open>max_pages\<close> always returns.
\<close>

theorem get_document_links_unique:
  "(\<forall>res tr'. get_document_links net parse mr mp tr = Some (res, tr')
        \<longrightarrow> distinct (map fst res)
            \<and> (\<exists>j. stops_at net parse mr mp [] 0 tr j
                    \<and> res = crawl_result net parse mr mp [] 0 tr j))
   \<and> (\<forall>j. stops_at net parse mr mp [] 0 tr j
        \<longrightarrow> (\<exists>tr'. get_document_links net parse mr mp tr
                     = Some (crawl_result net parse mr mp [] 0 tr j, tr')))
   \<and> (\<forall>k. collected net parse mr [] 0 tr k = first_seen {} (links_upto net parse mr 0 tr k))
   \<and> (\<forall>acc pn tr0 res tr'.
         distinct (map fst acc) \<and> crawl_pages net parse mr mp acc pn tr0 = Some (res, tr')
        \<longrightarrow> distinct (map fst res) \<and> prefix acc res)
   \<and> (\<forall>us acc f.
         fst (scan_links us acc f) = acc @ first_seen (fst ` set acc) us
         \<and> (distinct (map fst acc) \<longrightarrow> distinct (map fst (fst (scan_links us acc f)))))
   \<and> (\<forall>m. \<exists>y. get_document_links net parse mr (Some m) tr = Some y)"
proof -
  have a: "distinct (map fst res)"
    if "get_document_links net parse mr mp tr = Some (res, tr')" for res tr'
    using crawl_pages_invariant [of net parse mr mp "[]" 0 tr res tr'] that
    by (simp add: get_document_links_def)
  have r: "\<exists>j. stops_at net parse mr mp [] 0 tr j
                \<and> res = crawl_result net parse mr mp [] 0 tr j"
    if "get_document_links net parse mr mp tr = Some (res, tr')" for res tr'
    using crawl_pages_result [of net parse mr mp "[]" 0 tr "(res, tr')"] that
    by (simp add: get_document_links_def)
  have t: "\<exists>tr'. get_document_links net parse mr mp tr
                     = Some (crawl_result net parse mr mp [] 0 tr j, tr')"
    if "stops_at net parse mr mp [] 0 tr j" for j
    using crawl_pages_returns [OF that] by (simp add: get_document_links_def)
  have k: "collected net parse mr [] 0 tr k = first_seen {} (links_upto net parse mr 0 tr k)"
    for k
    by (simp add: collected_def)
  have b: "distinct (map fst res) \<and> prefix acc res"
    if "distinct (map fst acc)" "crawl_pages net parse mr mp acc pn tr0 = Some (res, tr')"
    for acc pn tr0 res tr'
    using crawl_pages_invariant that by blast
  have c: "fst (scan_links us acc f) = acc @ first_seen (fst ` set acc) us" for us acc f
    by (simp add: scan_links_first_seen)
  have d: "\<exists>y. get_document_links net parse mr (Some m) tr = Some y" for m
    using crawl_pages_bounded_returns by (simp add: get_document_links_def)
  show ?thesis
    using a r t k b c d scan_links_distinct by blast
qed

lemma echo_server_request:
  "make_request echo_server 3 url tr = (Some \<lparr>status_code = 200, content = url\<rparr>, tr @ [Get url])"
proof -
  have "[0..<nat 3] = [0, 1, 2]" by code_simp
  then show ?thesis by (simp add: make_request_def echo_server_def)
qed

lemma two_pages_crawl:
  "get_document_links echo_server two_pages 3 None []
     = Some ([(''irb24-02.pdf'', ''https://www.irs.gov/pub/irs-irbs/irb24-02.pdf''),
              (''irb24-01.pdf'', ''https://www.irs.gov/pub/irs-irbs/irb24-01.pdf''),
              (''irb23-52.pdf'', ''https://www.irs.gov/pub/irs-irbs/irb23-52.pdf'')],
             [Get (page_url 0), Sleep 1, Get (page_url 1), Sleep 1, Get (page_url 2)])"
proof -
  let ?a = "[(''irb24-02.pdf'', ''https://www.irs.gov/pub/irs-irbs/irb24-02.pdf''),
             (''irb24-01.pdf'', ''https://www.irs.gov/pub/irs-irbs/irb24-01.pdf'')]"
  let ?b = "[(''irb24-02.pdf'', ''https://www.irs.gov/pub/irs-irbs/irb24-02.pdf''),
             (''irb24-01.pdf'', ''https://www.irs.gov/pub/irs-irbs/irb24-01.pdf''),
             (''irb23-52.pdf'', ''https://www.irs.gov/pub/irs-irbs/irb23-52.pdf'')]"
  have s0: "scan_links (links (two_pages (page_url 0))) [] False = (?a, True)"
    by code_simp
  have s1: "scan_links (links (two_pages (page_url (Suc 0)))) ?a False = (?b, True)"
    by code_simp
  have s2: "scan_links (links (two_pages (page_url (Suc (Suc 0))))) ?b False = (?b, False)"
    by code_simp
  have n0: "has_next_page (two_pages (page_url 0))"
    and n1: "has_next_page (two_pages (page_url (Suc 0)))"
    by code_simp+
  have c2: "crawl_pages echo_server two_pages 3 None ?b (Suc (Suc 0)) tr
              = Some (?b, tr @ [Get (page_url (Suc (Suc 0)))])"
    for tr
    by (subst crawl_pages.simps)
       (simp add: below_max_pages_def echo_server_request s2 Let_def)
  have c1: "crawl_pages echo_server two_pages 3 None ?a (Suc 0) tr
              = Some (?b, tr @ [Get (page_url (Suc 0)), Sleep 1, Get (page_url (Suc (Suc 0)))])"
    for tr
    by (subst crawl_pages.simps)
       (simp add: below_max_pages_def echo_server_request s1 n1 c2 Let_def
          DELAY_BETWEEN_PAGES_def)
  have u2: "page_url (Suc (Suc 0)) = page_url 2"
    by code_simp
  have c0: "crawl_pages echo_server two_pages 3 None [] 0 tr
              = Some (?b, tr @ [Get (page_url 0), Sleep 1, Get (page_url 1), Sleep 1,
                                Get (page_url 2)])" for tr
    by (subst crawl_pages.simps)
       (simp add: below_max_pages_def echo_server_request s0 n0 c1 Let_def
          DELAY_BETWEEN_PAGES_def u2)
  show ?thesis
    using c0 [of "[]"] by (simp add: get_document_links_def)
qed

lemma two_pages_goes_on:
  "goes_on echo_server two_pages 3 None [] 0 [] 0"
  "goes_on echo_server two_pages 3 None [] 0 [] 1"
  "\<not> goes_on echo_server two_pages 3 None [] 0 [] 2"
  by code_simp+

lemma two_pages_result:
  "crawl_result echo_server two_pages 3 None [] 0 [] 2
     = [(''irb24-02.pdf'', ''https://www.irs.gov/pub/irs-irbs/irb24-02.pdf''),
        (''irb24-01.pdf'', ''https://www.irs.gov/pub/irs-irbs/irb24-01.pdf''),
        (''irb23-52.pdf'', ''https://www.irs.gov/pub/irs-irbs/irb23-52.pdf'')]"
  by code_simp

theorem get_document_links_unique_witness:
  "goes_on echo_server two_pages 3 None [] 0 [] 0
   \<and> goes_on echo_server two_pages 3 None [] 0 [] 1
   \<and> \<not> goes_on echo_server two_pages 3 None [] 0 [] 2
   \<and> map_option fst (get_document_links echo_server two_pages 3 None [])
       = Some [(''irb24-02.pdf'', ''https://www.irs.gov/pub/irs-irbs/irb24-02.pdf''),
               (''irb24-01.pdf'', ''https://www.irs.gov/pub/irs-irbs/irb24-01.pdf''),
               (''irb23-52.pdf'', ''https://www.irs.gov/pub/irs-irbs/irb23-52.pdf'')]
   \<and> links_upto echo_server two_pages 3 0 [] 3
       = [''https://www.irs.gov/pub/irs-irbs/irb24-02.pdf'',
          ''https://www.irs.gov/pub/irs-irbs/irb24-01.pdf'',
          ''https://www.irs.gov/pub/irs-irbs/irb24-01.pdf'',
          ''https://www.irs.gov/pub/irs-irbs/irb23-52.pdf'',
          ''https://www.irs.gov/pub/irs-irbs/irb24-01.pdf'']"
proof -
  have s: "stops_at echo_server two_pages 3 None [] 0 [] 2"
    unfolding stops_at_def using two_pages_goes_on
    by (auto simp: less_Suc_eq numeral_2_eq_2)
  from get_document_links_unique [of echo_server two_pages 3 None "[]"] s
  obtain tr' where "get_document_links echo_server two_pages 3 None []
                      = Some (crawl_result echo_server two_pages 3 None [] 0 [] 2, tr')"
    by blast
  then have "map_option fst (get_document_links echo_server two_pages 3 None [])
               = Some [(''irb24-02.pdf'', ''https://www.irs.gov/pub/irs-irbs/irb24-02.pdf''),
                       (''irb24-01.pdf'', ''https://www.irs.gov/pub/irs-irbs/irb24-01.pdf''),
                       (''irb23-52.pdf'', ''https://www.irs.gov/pub/irs-irbs/irb23-52.pdf'')]"
    by (simp add: two_pages_result)
  moreover have "links_upto echo_server two_pages 3 0 [] 3
       = [''https://www.irs.gov/pub/irs-irbs/irb24-02.pdf'',
          ''https://www.irs.gov/pub/irs-irbs/irb24-01.pdf'',
          ''https://www.irs.gov/pub/irs-irbs/irb24-01.pdf'',
          ''https://www.irs.gov/pub/irs-irbs/irb23-52.pdf'',
          ''https://www.irs.gov/pub/irs-irbs/irb24-01.pdf'']"
    by code_simp
  ultimately show ?thesis
    using two_pages_goes_on by blast
qed

text \<open>
  C4. In any iteration of the page loop: when the page is fetched and every link on it
  has a filename that is already collected (or it has no matching link), the crawl
  returns at once with the links collected so far; the trace ends with the fetch of
  this page, so no further page is requested, whatever the page's pagination says.
\<close>

theorem zero_new_links_stops:
  assumes "below_max_pages pn mp"
    and "make_request net mr (page_url pn) tr = (Some r, tr1)"
    and "basename ` set (links (parse (content r))) \<subseteq> fst ` set acc"
  shows "crawl_pages net parse mr mp acc pn tr = Some (acc, tr1)"
proof -
  have "first_seen (fst ` set acc) (links (parse (content r))) = []"
    using first_seen_names [of "fst ` set acc" "links (parse (content r))"] assms(3)
    by (metis Diff_eq_empty_iff image_is_empty set_empty)
  then have "scan_links (links (parse (content r))) acc False = (acc, False)"
    by (simp add: scan_links_first_seen)
  then show ?thesis
    using assms(1,2) by (subst crawl_pages.simps) (simp add: Let_def)
qed

theorem zero_new_links_stops_witness:
  "has_next_page (two_pages (page_url 2))
   \<and> crawl_pages echo_server two_pages 3 None
         [(''irb24-02.pdf'', ''https://www.irs.gov/pub/irs-irbs/irb24-02.pdf''),
          (''irb24-01.pdf'', ''https://www.irs.gov/pub/irs-irbs/irb24-01.pdf''),
          (''irb23-52.pdf'', ''https://www.irs.gov/pub/irs-irbs/irb23-52.pdf'')]
         2 [Get (page_url 0), Sleep 1, Get (page_url 1), Sleep 1]
       = Some ([(''irb24-02.pdf'', ''https://www.irs.gov/pub/irs-irbs/irb24-02.pdf''),
                (''irb24-01.pdf'', ''https://www.irs.gov/pub/irs-irbs/irb24-01.pdf''),
                (''irb23-52.pdf'', ''https://www.irs.gov/pub/irs-irbs/irb23-52.pdf'')],
               [Get (page_url 0), Sleep 1, Get (page_url 1), Sleep 1, Get (page_url 2)])"
proof -
  let ?b = "[(''irb24-02.pdf'', ''https://www.irs.gov/pub/irs-irbs/irb24-02.pdf''),
             (''irb24-01.pdf'', ''https://www.irs.gov/pub/irs-irbs/irb24-01.pdf''),
             (''irb23-52.pdf'', ''https://www.irs.gov/pub/irs-irbs/irb23-52.pdf'')]"
  let ?tr = "[Get (page_url 0), Sleep 1, Get (page_url 1), Sleep 1]"
  have n: "has_next_page (two_pages (page_url 2))"
    by code_simp
  have h1: "below_max_pages 2 None"
    by (simp add: below_max_pages_def)
  have h2: "make_request echo_server 3 (page_url 2) ?tr
              = (Some \<lparr>status_code = 200, content = page_url 2\<rparr>, ?tr @ [Get (page_url 2)])"
    by (rule echo_server_request)
  have h3: "basename ` set (links (two_pages (content \<lparr>status_code = 200, content = page_url 2\<rparr>)))
              \<subseteq> fst ` set ?b"
    by code_simp
  from zero_new_links_stops [where parse = two_pages and acc = ?b, OF h1 h2 h3] n
  show ?thesis by simp
qed

subsection \<open>Downloading one bulletin\<close>

lemma write_chunks_locked [simp]:
  "locked (snd (write_chunks fs p k cs)) = locked fs"
  by (induction fs p k cs rule: write_chunks.induct) simp_all

lemma write_stream_locked [simp]: "locked (snd (write_stream fs p cs)) = locked fs"
  by (simp add: write_stream_def)

text \<open>
  What \<open>download_bulletin\<close> does when the partial file can be deleted: it returns an
  outcome; after a failed fetch the outcome is \<open>failed\<close> with size \<open>0\<close> and the current
  timestamp and the directory is untouched; after a failed transfer the outcome is
  \<open>failed\<close> and the file is absent.
\<close>

lemma download_bulletin_outcomes:
  assumes "\<not> locked fs name"
  shows "\<exists>result. fst (download_bulletin net mr now (name, url) fs tr) = Inr result"
    and "\<not> file_exists fs name \<Longrightarrow> fst (make_request net mr url tr) = None \<Longrightarrow>
           fst (download_bulletin net mr now (name, url) fs tr) = Inr (failed_outcome now name)
           \<and> fst (snd (download_bulletin net mr now (name, url) fs tr)) = fs"
    and "\<not> file_exists fs name \<Longrightarrow> make_request net mr url tr = (Some r, tr1) \<Longrightarrow>
           \<not> fst (write_stream fs name (chunks CHUNK_SIZE (content r))) \<Longrightarrow>
           fst (download_bulletin net mr now (name, url) fs tr) = Inr (failed_outcome now name)
           \<and> \<not> file_exists (fst (snd (download_bulletin net mr now (name, url) fs tr))) name"
proof -
  have l: "\<not> locked fs1 name" if "write_stream fs name cs = (b, fs1)" for cs b fs1
    using assms write_stream_locked [of fs name cs] that by simp
  show "\<exists>result. fst (download_bulletin net mr now (name, url) fs tr) = Inr result"
    using l by (auto simp: download_bulletin_def split: prod.splits option.splits bool.splits)
  show "fst (download_bulletin net mr now (name, url) fs tr) = Inr (failed_outcome now name)
           \<and> fst (snd (download_bulletin net mr now (name, url) fs tr)) = fs"
    if "\<not> file_exists fs name" "fst (make_request net mr url tr) = None"
    using that by (auto simp: download_bulletin_def split: prod.splits option.splits)
  show "fst (download_bulletin net mr now (name, url) fs tr) = Inr (failed_outcome now name)
           \<and> \<not> file_exists (fst (snd (download_bulletin net mr now (name, url) fs tr))) name"
    if "\<not> file_exists fs name" "make_request net mr url tr = (Some r, tr1)"
       "\<not> fst (write_stream fs name (chunks CHUNK_SIZE (content r)))"
    using that l
    by (auto simp: download_bulletin_def file_exists_def AList.delete_conv'
          split: prod.splits bool.splits)
qed

text \<open>
  C6. The claim fails where the transfer breaks and the partial file cannot be deleted:
  the exception of \<^verbatim>\<open>unlink\<close> in the handler leaves \<open>download_bulletin\<close>, the partial
  file stays, and in a batch the downloads after it get no outcome.
\<close>

theorem download_bulletin_raises_when_unlink_fails:
  "download_bulletin echo_server 3 noon (''irb24-01.pdf'', ''u1'') stuck_disk []
     = (Inl OSError,
        stuck_disk\<lparr>files := [(''other.pdf'', ''%PDF-1.4''), (''irb24-01.pdf'', '''')]\<rparr>,
        [Get ''u1''])
   \<and> fst (download_all echo_server 3 (\<lambda>n. noon)
            [(''irb24-01.pdf'', ''u1''), (''other.pdf'', ''u2'')] stuck_disk [])
     = Inl OSError"
proof -
  have c: "chunks CHUNK_SIZE ''u1'' = [''u1'']"
    by (simp add: chunks.simps [of _ "''u1''"] chunks.simps [of _ "[]"] CHUNK_SIZE_def)
  have d: "download_bulletin echo_server 3 noon (''irb24-01.pdf'', ''u1'') stuck_disk []
     = (Inl OSError,
        stuck_disk\<lparr>files := [(''other.pdf'', ''%PDF-1.4''), (''irb24-01.pdf'', '''')]\<rparr>,
        [Get ''u1''])"
    by (simp add: download_bulletin_def echo_server_request c write_stream_def
          file_exists_def stuck_disk_def)
  show ?thesis
    by (simp add: d)
qed

subsection \<open>Cleanup of invalid files\<close>

lemma try_unlink_locked [simp]: "locked (try_unlink n fs) = locked fs"
  by (simp add: try_unlink_def)

lemma fold_try_unlink_locked [simp]: "locked (fold try_unlink ns fs) = locked fs"
  by (induction ns arbitrary: fs) simp_all

lemma try_unlink_files:
  "map_of (files (try_unlink a fs)) n
     = (if n = a \<and> \<not> locked fs a then None else map_of (files fs) n)"
  by (auto simp: try_unlink_def file_exists_def AList.delete_conv')

lemma fold_try_unlink_files:
  "map_of (files (fold try_unlink ns fs)) n
     = (if n \<in> set ns \<and> \<not> locked fs n then None else map_of (files fs) n)"
proof (induction ns arbitrary: fs)
  case Nil
  show ?case by simp
next
  case (Cons a ns)
  have "map_of (files (fold try_unlink (a # ns) fs)) n
          = map_of (files (fold try_unlink ns (try_unlink a fs))) n"
    by simp
  also have "\<dots> = (if n \<in> set ns \<and> \<not> locked fs n then None
                    else map_of (files (try_unlink a fs)) n)"
    using Cons [of "try_unlink a fs"] by simp
  finally show ?case
    by (auto simp: try_unlink_files)
qed

text \<open>
  What \<open>cleanup_invalid_files\<close> does: a dry run leaves the directory as it is and
  returns the invalid files; a real run removes every invalid file that can be
  removed, the others stay, and it returns the invalid files all the same.
\<close>

lemma cleanup_invalid_files_effect:
  "snd (cleanup_invalid_files True fs) = fs"
  "fst (cleanup_invalid_files dry_run fs)
     = map fst (filter (\<lambda>(filename, is_valid). \<not> is_valid) (validate_pdf_files fs))"
  "file_exists (snd (cleanup_invalid_files False fs)) n
     = (file_exists fs n
        \<and> (n \<in> set (fst (cleanup_invalid_files False fs)) \<longrightarrow> locked fs n))"
  by (auto simp: cleanup_invalid_files_def Let_def file_exists_def fold_try_unlink_files)

text \<open>
  C8. The claim fails where a deletion fails: the empty file \<open>bad.pdf\<close> cannot be
  deleted, still exists after the call, and is yet in the returned list.
\<close>

theorem cleanup_invalid_files_reports_undeleted:
  "cleanup_invalid_files False locked_dir = ([''bad.pdf''], locked_dir)
   \<and> file_exists (snd (cleanup_invalid_files False locked_dir)) ''bad.pdf''"
proof -
  have v: "validate_pdf_files locked_dir = [(''bad.pdf'', False), (''good.pdf'', True)]"
    by (simp add: validate_pdf_files_def glob_pdf_def endswith_def locked_dir_def st_size_def
          is_valid_pdf_flexible_def startswith_def)
  have c: "cleanup_invalid_files False locked_dir = ([''bad.pdf''], locked_dir)"
    by (simp add: cleanup_invalid_files_def v try_unlink_def) (simp add: locked_dir_def)
  show ?thesis
    unfolding c by (simp add: file_exists_def locked_dir_def)
qed

subsection \<open>A limit of zero\<close>

text \<open>
  C10. With \<open>limit = 0\<close> the test \<^verbatim>\<open>if limit\<close> is false twice: \<open>get_remote_bulletins\<close>
  crawls with the scraper's own \<open>max_pages\<close> and returns the whole list of discovered
  bulletins, and \<open>check_for_new_bulletins\<close> compares that whole list with the local
  files.
\<close>

theorem get_remote_bulletins_limit_zero:
  "get_remote_bulletins net parse mr mp (Some 0) tr = get_document_links net parse mr mp tr
   \<and> check_for_new_bulletins net parse mr mp now fs csv_file (Some 0) tr
     = (case get_document_links net parse mr mp tr of
          None \<Rightarrow> None
        | Some (all_bulletins, tr') \<Rightarrow>
            Some (\<lparr>total_remote_checked = length all_bulletins,
                   total_local = length (get_local_bulletins fs csv_file),
                   new_bulletins_count =
                     length (filter (\<lambda>(filename, url).
                        Some filename \<notin> set (get_local_bulletins fs csv_file)) all_bulletins),
                   new_bulletins =
                     filter (\<lambda>(filename, url).
                        Some filename \<notin> set (get_local_bulletins fs csv_file)) all_bulletins,
                   check_timestamp = get_timestamp now\<rparr>, tr'))"
proof -
  have g: "get_remote_bulletins net parse mr mp (Some 0) tr
             = get_document_links net parse mr mp tr"
    by (simp add: get_remote_bulletins_def truthy_def split: option.splits)
  show ?thesis
    unfolding check_for_new_bulletins_def g
    by (simp add: g Let_def split: option.splits)
qed

text \<open>On the two-page listing a limit of zero gives all three bulletins.\<close>

lemma limit_zero_and_one:
  "map_option fst (get_remote_bulletins echo_server two_pages 3 None (Some 0) [])
     = Some [(''irb24-02.pdf'', ''https://www.irs.gov/pub/irs-irbs/irb24-02.pdf''),
             (''irb24-01.pdf'', ''https://www.irs.gov/pub/irs-irbs/irb24-01.pdf''),
             (''irb23-52.pdf'', ''https://www.irs.gov/pub/irs-irbs/irb23-52.pdf'')]"
  by (simp add: get_remote_bulletins_def truthy_def two_pages_crawl)

subsection \<open>The ledger\<close>

lemma set_AList_update: "set (AList.update k v al) \<subseteq> insert (k, v) (set al)"
  by (induction al) auto

lemma good_entries_D:
  assumes "good_entries ex" and "(k, e) \<in> set ex"
  shows "\<exists>n cells. k = Some n \<and> row_cells e = Inr cells \<and> length cells = 4 \<and> hd cells = n"
proof -
  from assms have "case k of None \<Rightarrow> False
                   | Some n \<Rightarrow> (case row_cells e of Inl err \<Rightarrow> False
                                | Inr cells \<Rightarrow> length cells = 4 \<and> hd cells = n)"
    by (auto simp: good_entries_def list_all_iff)
  then show ?thesis
    by (cases k; cases "row_cells e") auto
qed

lemma distinct_map_Some: "distinct (map Some xs) = distinct xs"
  by (induction xs) auto

lemma good_entries_update:
  assumes "good_entries ex" and "row_cells e = Inr cells" and "length cells = 4"
    and "hd cells = n"
  shows "good_entries (AList.update (Some n) e ex)"
  using assms set_AList_update [of "Some n" e ex]
  by (auto simp: good_entries_def list_all_iff)

lemma short_row_cases:
  assumes "row \<noteq> []" and "length row \<le> 4"
  obtains a where "row = [a]"
  | a b where "row = [a, b]"
  | a b c where "row = [a, b, c]"
  | a b c d where "row = [a, b, c, d]"
proof -
  from assms(1) have "0 < length row"
    by simp
  with assms(2) have "length row = 1 \<or> length row = 2 \<or> length row = 3 \<or> length row = 4"
    by arith
  then show ?thesis
    using that by (auto simp: length_Suc_conv numeral_eq_Suc)
qed

lemma dict_row_short:
  assumes "row \<noteq> []" and "length row \<le> 4"
  shows "\<exists>d. dict_row CSV_FIELDNAMES row = Loaded d None
            \<and> map_of d ''file_name'' = Some (Some (hd row))
            \<and> row_cells (Loaded d None) = Inr (row @ replicate (4 - length row) [])"
  using assms
  by (rule short_row_cases)
     (simp_all add: dict_row_def CSV_FIELDNAMES_def row_cells_def numeral_eq_Suc)

lemma read_rows_good:
  assumes "list_all (\<lambda>row. length row \<le> 4) rows" and "good_entries ex"
  shows "good_entries (read_rows CSV_FIELDNAMES rows ex)"
  using assms
proof (induction rows arbitrary: ex)
  case Nil
  then show ?case by simp
next
  case (Cons row rows)
  show ?case
  proof (cases "row = []")
    case True
    with Cons show ?thesis by simp
  next
    case False
    with Cons.prems obtain d where d: "dict_row CSV_FIELDNAMES row = Loaded d None"
      "map_of d ''file_name'' = Some (Some (hd row))"
      "row_cells (Loaded d None) = Inr (row @ replicate (4 - length row) [])"
      using dict_row_short [of row] by auto
    have "good_entries (AList.update (Some (hd row)) (Loaded d None) ex)"
      using Cons.prems False
      by (intro good_entries_update [OF _ d(3)]) auto
    then show ?thesis
      using Cons False d by simp
  qed
qed

lemma read_rows_distinct:
  "distinct (map fst ex) \<Longrightarrow> distinct (map fst (read_rows fieldnames rows ex))"
  by (induction fieldnames rows ex rule: read_rows.induct)
     (auto simp: AList.distinct_update split: entry.splits option.splits)

lemma get_existing_files_distinct: "distinct (map fst (get_existing_files f))"
  by (auto simp: get_existing_files_def read_rows_distinct split: option.splits list.splits)

lemma good_entries_Nil: "good_entries []"
  by (simp add: good_entries_def)

lemma get_existing_files_good: "wf_ledger f \<Longrightarrow> good_entries (get_existing_files f)"
  by (auto simp: get_existing_files_def wf_ledger_def read_rows_good good_entries_Nil
        split: option.splits list.splits)

lemma ledger_rows_update:
  "ledger_rows (AList.update (Some n) e ex) = (ledger_rows ex)(n \<mapsto> cells_of e)"
  by (rule ext) (simp add: ledger_rows_def AList.update_conv')

lemma merge_good:
  "good_entries ex \<Longrightarrow>
     good_entries (fold (\<lambda>r. AList.update (Some (file_name r)) (Result r)) rs ex)"
proof (induction rs arbitrary: ex)
  case Nil
  then show ?case by simp
next
  case (Cons r rs)
  have "row_cells (Result r)
          = Inr [file_name r, str_size (file_size_mb r), download_timestamp r, status r]"
    by (simp add: row_cells_def)
  from good_entries_update [OF Cons.prems this]
  have "good_entries (AList.update (Some (file_name r)) (Result r) ex)"
    by simp
  then show ?case
    using Cons.IH by simp
qed

lemma merge_distinct:
  "distinct (map fst ex) \<Longrightarrow>
     distinct (map fst (fold (\<lambda>r. AList.update (Some (file_name r)) (Result r)) rs ex))"
  by (induction rs arbitrary: ex) (simp_all add: AList.distinct_update)

lemma merge_rows:
  "ledger_rows (fold (\<lambda>r. AList.update (Some (file_name r)) (Result r)) rs ex)
     = ledger_rows ex ++ outcome_rows rs"
proof (induction rs arbitrary: ex)
  case Nil
  show ?case by (simp add: outcome_rows_def)
next
  case (Cons r rs)
  have "ledger_rows (fold (\<lambda>r. AList.update (Some (file_name r)) (Result r)) (r # rs) ex)
          = ledger_rows (AList.update (Some (file_name r)) (Result r) ex) ++ outcome_rows rs"
    using Cons [of "AList.update (Some (file_name r)) (Result r) ex"] by simp
  also have "\<dots> = ledger_rows ex ++ outcome_rows (r # rs)"
    unfolding ledger_rows_update
    by (rule ext) (simp add: outcome_rows_def map_add_def split: option.splits)
  finally show ?case .
qed

lemma good_entries_rows:
  assumes "good_entries ex" and "ledger_rows ex n = Some row"
  shows "length row = 4 \<and> hd row = n"
proof -
  from assms(2) obtain e where e: "map_of ex (Some n) = Some e" "row = cells_of e"
    by (auto simp: ledger_rows_def)
  then have "(Some n, e) \<in> set ex"
    by (simp add: map_of_SomeD)
  from good_entries_D [OF assms(1) this] e(2) show ?thesis
    by (auto simp: cells_of_def)
qed

lemma dom_ledger_rows:
  "dom (ledger_rows ex) = {n. Some n \<in> fst ` set ex}"
  by (auto simp: ledger_rows_def dom_def map_of_eq_None_iff)

lemma good_entries_keys:
  assumes "good_entries ex"
  shows "map fst ex = map Some (map (the \<circ> fst) ex)"
  using assms
  by (induction ex) (auto simp: good_entries_def split: option.splits)

lemma write_rows_good:
  assumes "good_entries ex" and "set ns \<subseteq> dom (ledger_rows ex)"
  shows "write_rows ex (map Some ns) written
           = written @ map (\<lambda>n. the (ledger_rows ex n)) ns"
  using assms(2)
proof (induction ns arbitrary: written)
  case Nil
  show ?case by simp
next
  case (Cons n ns)
  then obtain e where e: "map_of ex (Some n) = Some e"
    by (auto simp: ledger_rows_def dom_def)
  then have "(Some n, e) \<in> set ex"
    by (simp add: map_of_SomeD)
  from good_entries_D [OF assms(1) this] obtain cells where c: "row_cells e = Inr cells"
    by auto
  have "the (ledger_rows ex n) = cells"
    by (simp add: ledger_rows_def e cells_of_def c)
  then show ?case
    using Cons e c by simp
qed

lemma sorted_keys_Some: "sorted_keys (map Some ns) = Inr (map Some (sort ns))"
proof -
  have "None \<notin> set (map Some ns)" by auto
  moreover have "map the (map Some ns) = ns" by (induction ns) auto
  ultimately show ?thesis
    unfolding sorted_keys_def by (simp only: if_False)
qed

lemma written_table:
  assumes "good_entries ex" and "distinct (map fst ex)"
  shows "CSV_FIELDNAMES #
           (case sorted_keys (map fst ex) of
              Inl err \<Rightarrow> []
            | Inr filenames \<Rightarrow> write_rows ex filenames [])
         = table (ledger_rows ex)"
proof -
  let ?ns = "map (the \<circ> fst) ex"
  have k: "map fst ex = map Some ?ns"
    using assms(1) by (rule good_entries_keys)
  have "distinct (map Some ?ns)"
    using assms(2) k by metis
  then have d: "distinct ?ns"
    by (simp only: distinct_map_Some)
  have s: "set ?ns = dom (ledger_rows ex)"
  proof -
    have "fst ` set ex = Some ` set ?ns"
      using k by (metis list.set_map)
    then show ?thesis
      by (auto simp: dom_ledger_rows)
  qed
  have "sort ?ns = sorted_list_of_set (dom (ledger_rows ex))"
    using d s by (metis sorted_list_of_set_sort_remdups distinct_remdups_id)
  moreover have "sorted_keys (map fst ex) = Inr (map Some (sort ?ns))"
    by (metis k sorted_keys_Some)
  moreover have "write_rows ex (map Some (sort ?ns)) []
                   = map (\<lambda>n. the (ledger_rows ex n)) (sort ?ns)"
    using write_rows_good [OF assms(1), of "sort ?ns" "[]"] s by simp
  ultimately show ?thesis
    by (simp add: table_def)
qed

lemma create_csv_summary_table:
  assumes "good_entries (get_existing_files f)"
  shows "create_csv_summary NoFault rs f
           = Some (table (ledger_rows (get_existing_files f) ++ outcome_rows rs))"
proof -
  let ?ex = "fold (\<lambda>r. AList.update (Some (file_name r)) (Result r)) rs (get_existing_files f)"
  have "good_entries ?ex"
    using assms by (rule merge_good)
  moreover have "distinct (map fst ?ex)"
    by (rule merge_distinct) (rule get_existing_files_distinct)
  ultimately have "CSV_FIELDNAMES #
           (case sorted_keys (map fst ?ex) of
              Inl err \<Rightarrow> []
            | Inr filenames \<Rightarrow> write_rows ?ex filenames [])
         = table (ledger_rows ?ex)"
    by (rule written_table)
  then show ?thesis
    by (simp add: create_csv_summary_def Let_def merge_rows)
qed


lemma read_rows_rows:
  assumes "list_all (\<lambda>row. length row \<le> 4) rows"
  shows "ledger_rows (read_rows CSV_FIELDNAMES rows ex)
           = ledger_rows ex
               ++ map_of (rev (map (\<lambda>row. (hd row, row @ replicate (4 - length row) []))
                                 (filter (\<lambda>row. row \<noteq> []) rows)))"
  using assms
proof (induction rows arbitrary: ex)
  case Nil
  show ?case by simp
next
  case (Cons row rows)
  show ?case
  proof (cases "row = []")
    case True
    with Cons show ?thesis by simp
  next
    case False
    with Cons.prems obtain d where d: "dict_row CSV_FIELDNAMES row = Loaded d None"
      "map_of d ''file_name'' = Some (Some (hd row))"
      "row_cells (Loaded d None) = Inr (row @ replicate (4 - length row) [])"
      using dict_row_short [of row] by auto
    have "ledger_rows (read_rows CSV_FIELDNAMES (row # rows) ex)
            = ledger_rows (AList.update (Some (hd row)) (Loaded d None) ex)
                ++ map_of (rev (map (\<lambda>row. (hd row, row @ replicate (4 - length row) []))
                                  (filter (\<lambda>row. row \<noteq> []) rows)))"
      using Cons.IH [of "AList.update (Some (hd row)) (Loaded d None) ex"] Cons.prems False d
      by simp
    also have "\<dots> = ledger_rows ex
                ++ map_of (rev (map (\<lambda>row. (hd row, row @ replicate (4 - length row) []))
                                  (filter (\<lambda>row. row \<noteq> []) (row # rows))))"
      unfolding ledger_rows_update
      by (rule ext) (simp add: False cells_of_def d(3) map_add_def split: option.splits)
    finally show ?thesis .
  qed
qed

lemma map_of_rev_graph:
  "map_of (rev (map (\<lambda>n. (n, f n)) ns)) k = (if k \<in> set ns then Some (f k) else None)"
  by (induction ns) (auto simp: map_add_def split: option.splits)

text \<open>Reading back a table of rows of four cells, each starting with its file name.\<close>

lemma reload_table:
  assumes "finite (dom m)"
    and "\<And>n row. m n = Some row \<Longrightarrow> length row = 4 \<and> hd row = n"
  shows "good_entries (get_existing_files (Some (table m)))"
    and "ledger_rows (get_existing_files (Some (table m))) = m"
proof -
  let ?ns = "sorted_list_of_set (dom m)"
  let ?rows = "map (\<lambda>n. the (m n)) ?ns"
  have ns: "set ?ns = dom m"
    using assms(1) by simp
  have r: "length (the (m n)) = 4 \<and> hd (the (m n)) = n" if "n \<in> set ?ns" for n
    using that ns assms(2) [of n "the (m n)"] by auto
  have l: "list_all (\<lambda>row. length row \<le> 4) ?rows"
    using r by (auto simp: list_all_iff)
  have g: "get_existing_files (Some (table m)) = read_rows CSV_FIELDNAMES ?rows []"
    by (simp add: get_existing_files_def table_def)
  show "good_entries (get_existing_files (Some (table m)))"
    unfolding g using l good_entries_Nil by (rule read_rows_good)
  have "the (m n) \<noteq> []" if "n \<in> set ?ns" for n
    using r [OF that] by auto
  then have f: "filter (\<lambda>row. row \<noteq> []) ?rows = ?rows"
    by (simp add: filter_id_conv)
  have p: "map (\<lambda>row. (hd row, row @ replicate (4 - length row) [])) ?rows
             = map (\<lambda>n. (n, the (m n))) ?ns"
    using r by simp
  have "ledger_rows (get_existing_files (Some (table m))) k = m k" for k
  proof -
    have "ledger_rows (get_existing_files (Some (table m))) k
            = map_of (rev (map (\<lambda>n. (n, the (m n))) ?ns)) k"
      unfolding g read_rows_rows [OF l] f p
      by (simp add: ledger_rows_def map_add_def split: option.splits)
    also have "\<dots> = m k"
      unfolding map_of_rev_graph using ns by (auto simp: dom_def)
    finally show ?thesis .
  qed
  then show "ledger_rows (get_existing_files (Some (table m))) = m"
    by (rule ext)
qed

lemma merged_rows_shape:
  assumes "good_entries ex" and "(ledger_rows ex ++ outcome_rows rs) n = Some row"
  shows "length row = 4 \<and> hd row = n"
proof -
  let ?ex = "fold (\<lambda>r. AList.update (Some (file_name r)) (Result r)) rs ex"
  have "good_entries ?ex"
    using assms(1) by (rule merge_good)
  moreover have "ledger_rows ?ex n = Some row"
    using assms(2) by (simp add: merge_rows)
  ultimately show ?thesis
    by (rule good_entries_rows)
qed

lemma finite_dom_ledger_rows: "finite (dom (ledger_rows ex))"
proof -
  have "dom (ledger_rows ex) \<subseteq> the ` (fst ` set ex)"
  proof
    fix n
    assume "n \<in> dom (ledger_rows ex)"
    then have "Some n \<in> fst ` set ex"
      by (simp add: dom_ledger_rows)
    then show "n \<in> the ` (fst ` set ex)"
      by (metis image_eqI option.sel)
  qed
  then show ?thesis
    by (rule finite_subset) simp
qed

lemma finite_dom_outcome_rows: "finite (dom (outcome_rows rs))"
  by (simp add: outcome_rows_def finite_dom_map_of)

lemma table_names:
  assumes "finite (dom m)"
    and "\<And>n row. m n = Some row \<Longrightarrow> length row = 4 \<and> hd row = n"
  shows "map hd (tl (table m)) = sorted_list_of_set (dom m)"
proof -
  have "hd (the (m n)) = n" if "n \<in> set (sorted_list_of_set (dom m))" for n
    using that assms(1) assms(2) [of n "the (m n)"] by auto
  then show ?thesis
    by (simp add: table_def comp_def map_idI)
qed

lemma saved_sample:
  "create_csv_summary NoFault new_results old_ledger
     = Some [CSV_FIELDNAMES,
             [''irb23-52.pdf'', ''2.08'', ''existing'', ''skipped''],
             [''irb24-02.pdf'', ''1.23'', ''2024-01-08T09:00:00'', ''downloaded''],
             [''irb24-03.pdf'', ''1.5'', ''2024-03-09T12:00:00'', ''downloaded'']]"
  by code_simp

lemma wf_old_ledger: "wf_ledger old_ledger"
  by (simp add: wf_ledger_def old_ledger_def CSV_FIELDNAMES_def)

text \<open>
  C1. For a ledger in the program's format (missing and unreadable ledgers load as the
  empty mapping) and any list of results, \<open>create_csv_summary\<close> writes the table of
  the loaded mapping overwritten by one entry per file name of the results: the fixed
  header, then one row per file name in strictly ascending order. Loading the written
  file gives that mapping back, with exactly one entry per file name.
\<close>

theorem create_csv_summary_merges:
  assumes "wf_ledger csv_file"
  shows "get_existing_files None = [] \<and> get_existing_files (Some []) = []
       \<and> create_csv_summary NoFault download_results csv_file
           = Some (table (ledger_rows (get_existing_files csv_file)
                            ++ outcome_rows download_results))
       \<and> hd (table (ledger_rows (get_existing_files csv_file)
                      ++ outcome_rows download_results)) = CSV_FIELDNAMES
       \<and> map hd (tl (table (ledger_rows (get_existing_files csv_file)
                              ++ outcome_rows download_results)))
           = sorted_list_of_set (dom (ledger_rows (get_existing_files csv_file)
                                        ++ outcome_rows download_results))
       \<and> sorted (map hd (tl (table (ledger_rows (get_existing_files csv_file)
                                      ++ outcome_rows download_results))))
       \<and> distinct (map hd (tl (table (ledger_rows (get_existing_files csv_file)
                                        ++ outcome_rows download_results))))
       \<and> ledger_rows (get_existing_files
                         (create_csv_summary NoFault download_results csv_file))
           = ledger_rows (get_existing_files csv_file) ++ outcome_rows download_results
       \<and> distinct (map fst (get_existing_files
                                (create_csv_summary NoFault download_results csv_file)))
       \<and> length (get_existing_files
                    (create_csv_summary NoFault download_results csv_file))
           = card (dom (ledger_rows (get_existing_files csv_file)
                           ++ outcome_rows download_results))"
proof -
  let ?m = "ledger_rows (get_existing_files csv_file) ++ outcome_rows download_results"
  let ?ex' = "get_existing_files (create_csv_summary NoFault download_results csv_file)"
  have g: "good_entries (get_existing_files csv_file)"
    using assms by (rule get_existing_files_good)
  have c: "create_csv_summary NoFault download_results csv_file = Some (table ?m)"
    using g by (rule create_csv_summary_table)
  have fin: "finite (dom ?m)"
    by (simp add: finite_dom_ledger_rows finite_dom_outcome_rows)
  have shape: "length row = 4 \<and> hd row = n" if "?m n = Some row" for n row
    using g that by (rule merged_rows_shape)
  have names: "map hd (tl (table ?m)) = sorted_list_of_set (dom ?m)"
    using fin shape by (rule table_names)
  have rl: "ledger_rows ?ex' = ?m" and gd: "good_entries ?ex'"
    unfolding c using reload_table [OF fin shape] by blast+
  have di: "distinct (map fst ?ex')"
    by (rule get_existing_files_distinct)
  have "length ?ex' = card (dom ?m)"
  proof -
    have k: "map fst ?ex' = map Some (map (the \<circ> fst) ?ex')"
      using gd by (rule good_entries_keys)
    have "distinct (map Some (map (the \<circ> fst) ?ex'))"
      using di k by metis
    then have d: "distinct (map (the \<circ> fst) ?ex')"
      by (simp only: distinct_map_Some)
    have "fst ` set ?ex' = Some ` set (map (the \<circ> fst) ?ex')"
      using k by (metis list.set_map)
    then have "set (map (the \<circ> fst) ?ex') = dom (ledger_rows ?ex')"
      by (auto simp: dom_ledger_rows)
    then have "card (dom ?m) = length (map (the \<circ> fst) ?ex')"
      using d rl by (metis distinct_card)
    then show ?thesis by simp
  qed
  moreover have "get_existing_files None = [] \<and> get_existing_files (Some []) = []"
    by (simp add: get_existing_files_def)
  moreover have "hd (table ?m) = CSV_FIELDNAMES"
    by (simp add: table_def)
  ultimately show ?thesis
    using c names rl di by (simp add: names)
qed

theorem create_csv_summary_merges_witness:
  "wf_ledger old_ledger
   \<and> table (ledger_rows (get_existing_files old_ledger) ++ outcome_rows new_results)
       = [CSV_FIELDNAMES,
          [''irb23-52.pdf'', ''2.08'', ''existing'', ''skipped''],
          [''irb24-02.pdf'', ''1.23'', ''2024-01-08T09:00:00'', ''downloaded''],
          [''irb24-03.pdf'', ''1.5'', ''2024-03-09T12:00:00'', ''downloaded'']]
   \<and> length (get_existing_files (create_csv_summary NoFault new_results old_ledger))
       = card (dom (ledger_rows (get_existing_files old_ledger) ++ outcome_rows new_results))"
proof -
  note T = create_csv_summary_merges [OF wf_old_ledger, of new_results]
  from T have "create_csv_summary NoFault new_results old_ledger
                 = Some (table (ledger_rows (get_existing_files old_ledger)
                                  ++ outcome_rows new_results))"
    by blast
  then have tab: "table (ledger_rows (get_existing_files old_ledger) ++ outcome_rows new_results)
       = [CSV_FIELDNAMES,
          [''irb23-52.pdf'', ''2.08'', ''existing'', ''skipped''],
          [''irb24-02.pdf'', ''1.23'', ''2024-01-08T09:00:00'', ''downloaded''],
          [''irb24-03.pdf'', ''1.5'', ''2024-03-09T12:00:00'', ''downloaded'']]"
    unfolding saved_sample by simp
  from T have "length (get_existing_files (create_csv_summary NoFault new_results old_ledger))
       = card (dom (ledger_rows (get_existing_files old_ledger) ++ outcome_rows new_results))"
    by blast
  with tab wf_old_ledger show ?thesis
    by blast
qed

text \<open>
  C7. Saving the same results a second time leaves the file exactly as the first save
  wrote it.
\<close>

theorem create_csv_summary_idempotent:
  assumes "wf_ledger csv_file"
  shows "create_csv_summary NoFault download_results
           (create_csv_summary NoFault download_results csv_file)
         = create_csv_summary NoFault download_results csv_file"
proof -
  let ?n = "outcome_rows download_results"
  let ?m = "ledger_rows (get_existing_files csv_file) ++ ?n"
  have g: "good_entries (get_existing_files csv_file)"
    using assms by (rule get_existing_files_good)
  have c: "create_csv_summary NoFault download_results csv_file = Some (table ?m)"
    using g by (rule create_csv_summary_table)
  have fin: "finite (dom ?m)"
    by (simp add: finite_dom_ledger_rows finite_dom_outcome_rows)
  have shape: "length row = 4 \<and> hd row = n" if "?m n = Some row" for n row
    using g that by (rule merged_rows_shape)
  have rl: "ledger_rows (get_existing_files (Some (table ?m))) = ?m"
    and gd: "good_entries (get_existing_files (Some (table ?m)))"
    using reload_table [OF fin shape] by blast+
  have "create_csv_summary NoFault download_results (Some (table ?m))
          = Some (table (?m ++ ?n))"
    using create_csv_summary_table [OF gd] by (simp only: rl)
  moreover have "?m ++ ?n = ?m"
    by (rule ext) (simp add: map_add_def split: option.splits)
  ultimately show ?thesis
    by (simp only: c)
qed

theorem create_csv_summary_idempotent_witness:
  "wf_ledger old_ledger
   \<and> create_csv_summary NoFault new_results
         (Some [CSV_FIELDNAMES,
                [''irb23-52.pdf'', ''2.08'', ''existing'', ''skipped''],
                [''irb24-02.pdf'', ''1.23'', ''2024-01-08T09:00:00'', ''downloaded''],
                [''irb24-03.pdf'', ''1.5'', ''2024-03-09T12:00:00'', ''downloaded'']])
       = Some [CSV_FIELDNAMES,
               [''irb23-52.pdf'', ''2.08'', ''existing'', ''skipped''],
               [''irb24-02.pdf'', ''1.23'', ''2024-01-08T09:00:00'', ''downloaded''],
               [''irb24-03.pdf'', ''1.5'', ''2024-03-09T12:00:00'', ''downloaded'']]"
  using create_csv_summary_idempotent [OF wf_old_ledger, of new_results] wf_old_ledger
  unfolding saved_sample by blast

text \<open>
  Outside the program's format the merge can be lost: a ledger with a foreign column
  makes \<^verbatim>\<open>writerow\<close> raise \<^verbatim>\<open>ValueError\<close> at its first old row, after the file was
  truncated, and the exception is only logged.
\<close>

lemma foreign_ledger_truncated:
  "create_csv_summary NoFault [failed_outcome noon ''z.pdf'']
     (Some [[''file_name'', ''note''], [''a.pdf'', ''kept'']])
   = Some [CSV_FIELDNAMES]"
  by code_simp

subsection \<open>The format of ledger rows\<close>







lemma eat_Cons [simp]: "eat c (c # r) = Some r"
  by (simp add: eat_def)
















text \<open>
  The sizes that \<^verbatim>\<open>str\<close> renders with fewer than two decimals: a float with a zero
  second decimal, and the file of 13 bytes that is skipped.
\<close>

lemma size_rendering_examples:
  "str_size (PyFloat 150) = ''1.5'' \<and> \<not> two_decimals ''1.5''
   \<and> str_size (PyFloat (round2 13)) = ''0.0'' \<and> \<not> two_decimals ''0.0''"
proof -
  have "round2 13 = 0"
    by (simp add: round2_def Let_def)
  moreover have "str_size (PyFloat 0) = ''0.0''"
    by code_simp
  moreover have "str_size (PyFloat 150) = ''1.5'' \<and> \<not> two_decimals ''1.5''
                   \<and> \<not> two_decimals ''0.0''"
    by code_simp
  ultimately show ?thesis
    by simp
qed



end
